theory Spec2Isabelle
  imports Main "HOL-Library.Word"
begin

section \<open>Data model of the work-group (src/spirsim/WorkGroup.cpp)\<close>

text \<open>
  The file under verification is the work-group scheduler of the simulator.  Its
  collaborators (WorkItem, Memory, Kernel) and its own header are not part of the
  verified source, so their operations enter the model as parameters.

  Modelled from the spec: the enumeration \<open>WorkItem::State\<close>, declared in WorkItem.h,
  which the spec gives as exactly these four states.
\<close>

datatype State = READY | BARRIER | WAIT_EVENT | FINISHED

text \<open>
  Modelled from the spec: the direction of an asynchronous copy and the five fields of
  a copy descriptor, declared in WorkGroup.h.  The field \<open>size\<close> of the source is
  called \<open>size_c\<close> here.  Addresses, sizes and the instruction pointer are 64-bit
  machine words.
\<close>

datatype AsyncCopyType = GLOBAL_TO_LOCAL | LOCAL_TO_GLOBAL

record AsyncCopy =
  instruction :: "64 word"
  type :: AsyncCopyType
  dest :: "64 word"
  src :: "64 word"
  size_c :: "64 word"

text \<open>\<open>WorkGroup::AsyncCopy::operator==\<close>: the conjunction of five field comparisons.\<close>

definition AsyncCopy_eq :: "AsyncCopy \<Rightarrow> AsyncCopy \<Rightarrow> bool" where
  "AsyncCopy_eq a copy \<longleftrightarrow>
     (instruction a = instruction copy) \<and>
     (type a = type copy) \<and>
     (dest a = dest copy) \<and>
     (src a = src copy) \<and>
     (size_c a = size_c copy)"

text \<open>
  What is written to \<open>std::cout\<close>, one entry per stream insertion: a string, an
  unsigned number, or \<open>endl\<close>.
\<close>

datatype out = Str string | Num "64 word" | Endl

subsection \<open>The containers \<open>std::map\<close> and \<open>std::set\<close>\<close>

text \<open>
  A \<open>std::map\<close> is an association list kept in ascending key order, a \<open>std::set\<close> a
  list in ascending order without duplicates; iteration is the order of the list.
  Lookup is \<^const>\<open>map_of\<close>.  \<open>map_put\<close> is assignment through \<open>operator[]\<close>,
  \<open>map_subscript\<close> is reading through \<open>operator[]\<close> (which inserts an empty value
  for an absent key), \<open>map_erase\<close> is \<open>erase(key)\<close>, \<open>set_insert\<close> is \<open>insert\<close>.
\<close>

fun map_put :: "'k::linorder \<Rightarrow> 'v \<Rightarrow> ('k \<times> 'v) list \<Rightarrow> ('k \<times> 'v) list" where
  "map_put k v [] = [(k, v)]"
| "map_put k v ((k', v') # m) =
     (if k = k' then (k, v) # m
      else if k < k' then (k, v) # (k', v') # m
      else (k', v') # map_put k v m)"

definition map_subscript ::
  "'k::linorder \<Rightarrow> ('k \<times> 'v list) list \<Rightarrow> 'v list \<times> ('k \<times> 'v list) list" where
  "map_subscript k m =
     (case map_of m k of Some v \<Rightarrow> (v, m) | None \<Rightarrow> ([], map_put k [] m))"

definition map_erase :: "'k \<Rightarrow> ('k \<times> 'v) list \<Rightarrow> ('k \<times> 'v) list" where
  "map_erase k m = filter (\<lambda>p. fst p \<noteq> k) m"

fun set_insert :: "'k::linorder \<Rightarrow> 'k list \<Rightarrow> 'k list" where
  "set_insert x [] = [x]"
| "set_insert x (y # ys) =
     (if x = y then y # ys
      else if x < y then x # y # ys
      else y # set_insert x ys)"

subsection \<open>The state a work-item can reach\<close>

text \<open>
  The members of the work-group that kernel code running inside a work-item can change:
  the event registry (through \<open>async_copy\<close> and \<open>wait_event\<close>), the local memory
  (through \<open>getLocalMemory\<close>), the global memory it holds by reference, and
  \<open>std::cout\<close>.  \<open>'mem\<close> is the state of a Memory object.
\<close>

record 'mem Env =
  m_pendingEvents :: "(64 word \<times> AsyncCopy list) list"
  m_waitEvents :: "64 word list"
  m_nextEvent :: "64 word"
  m_localMemory :: 'mem
  m_globalMemory :: 'mem
  cout :: "out list"

datatype error = AssertionFailed | OutOfBounds | Uninitialised

section \<open>The event registry\<close>

text \<open>
  The two nested loops at the head of \<open>WorkGroup::async_copy\<close>: the handles in key
  order, the descriptors of each handle in list order, returning the first handle that
  holds a descriptor equal to the request.
\<close>

fun find_copy :: "(64 word \<times> AsyncCopy list) list \<Rightarrow> AsyncCopy \<Rightarrow> 64 word option" where
  "find_copy [] copy = None"
| "find_copy ((e, cs) # m) copy =
     (if list_ex (\<lambda>c. AsyncCopy_eq c copy) cs then Some e else find_copy m copy)"

text \<open>
  \<open>WorkGroup::async_copy(copy, event)\<close> returns the handle and the new state.  When no
  pending descriptor matches: \<open>event = m_nextEvent++\<close>, then
  \<open>m_pendingEvents[event] = list()\<close>, then \<open>m_pendingEvents[event].push_back(copy)\<close>.
\<close>

definition async_copy ::
  "AsyncCopy \<Rightarrow> 64 word \<Rightarrow> 'mem Env \<Rightarrow> 64 word \<times> 'mem Env" where
  "async_copy copy event s =
     (case find_copy (m_pendingEvents s) copy of
        Some e \<Rightarrow> (e, s)
      | None \<Rightarrow>
          (let event' = m_nextEvent s;
               s1 = s\<lparr>m_nextEvent := m_nextEvent s + 1\<rparr>;
               s2 = s1\<lparr>m_pendingEvents := map_put event' [] (m_pendingEvents s1)\<rparr>;
               (l, m) = map_subscript event' (m_pendingEvents s2);
               s3 = s2\<lparr>m_pendingEvents := map_put event' (l @ [copy]) m\<rparr>
           in (event', s3)))"

text \<open>
  \<open>WorkGroup::wait_event(event)\<close>, with assertions enabled: a failed \<open>assert\<close> aborts
  the process, which is the error value here.
\<close>

definition wait_event :: "64 word \<Rightarrow> 'mem Env \<Rightarrow> error + 'mem Env" where
  "wait_event event s =
     (if map_of (m_pendingEvents s) event = None then Inl AssertionFailed
      else Inr (s\<lparr>m_waitEvents := set_insert event (m_waitEvents s)\<rparr>))"


section \<open>Collaborators\<close>

text \<open>
  The operations of WorkItem and Memory that \<open>WorkGroup\<close> calls, and the macro
  \<open>SMALL_SEPARATOR\<close> of common.h.  None of them is defined in the verified source, so
  every function below takes them as the parameter \<open>X\<close> and every theorem holds for
  all of them.  \<open>'wi\<close> is the state of one work-item.
  \<^item> \<open>step X outputInstructions w s\<close> is \<open>WorkItem::step\<close>: it returns the state it
    reports, the changed work-item and the changed environment, or an error when an
    assertion fails on the way (kernel code calls \<open>wait_event\<close>).
  \<^item> \<open>load X mem address size\<close> is the content of the buffer after
    \<open>Memory::load(buffer, address, size)\<close>.
  \<^item> \<open>store X mem buffer address size\<close> is the memory after
    \<open>Memory::store(buffer, address, size)\<close>.
\<close>

record ('wi, 'mem) Collab =
  getState :: "'wi \<Rightarrow> State"
  step :: "bool \<Rightarrow> 'wi \<Rightarrow> 'mem Env \<Rightarrow> error + (State \<times> 'wi \<times> 'mem Env)"
  clearBarrier :: "'wi \<Rightarrow> 'wi"
  getGlobalID :: "'wi \<Rightarrow> 64 word \<times> 64 word \<times> 64 word"
  load :: "'mem \<Rightarrow> 64 word \<Rightarrow> 64 word \<Rightarrow> 8 word list"
  store :: "'mem \<Rightarrow> 8 word list \<Rightarrow> 64 word \<Rightarrow> 64 word \<Rightarrow> 'mem"
  SMALL_SEPARATOR :: string

section \<open>The work-group\<close>

text \<open>
  The members of \<open>WorkGroup\<close>.  The array \<open>m_workItems\<close> is a list; the member
  \<open>m_totalWorkItems\<close>, which the source keeps as the length of that array, is the
  length of the list.  The counters of \<open>run\<close> are natural numbers: the source counts in
  \<open>int\<close>, which is exact for groups of fewer than \<open>2^31\<close> work-items.
\<close>

record ('wi, 'mem) WorkGroup =
  m_workDim :: "32 word"
  m_groupID :: "64 word \<times> 64 word \<times> 64 word"
  m_globalSize :: "64 word \<times> 64 word \<times> 64 word"
  m_groupSize :: "64 word \<times> 64 word \<times> 64 word"
  m_workItems :: "'wi list"
  env :: "'mem Env"

definition m_totalWorkItems :: "('wi, 'mem) WorkGroup \<Rightarrow> nat" where
  "m_totalWorkItems wg = length (m_workItems wg)"

subsection \<open>Construction\<close>

text \<open>
  The constructor allocates \<open>groupSize[0] * groupSize[1] * groupSize[2]\<close> pointers (a
  product of \<open>size_t\<close>, which wraps) and fills them in three nested loops.  An entry
  that has not been written is \<open>None\<close>.  A write past the end of the array and a
  pointer left unwritten are errors of the model.
\<close>

definition put_item ::
  "(64 word \<Rightarrow> 64 word \<Rightarrow> 64 word \<Rightarrow> 'wi) \<Rightarrow> 64 word \<Rightarrow> 64 word \<Rightarrow> 64 word \<Rightarrow> 64 word \<Rightarrow> 64 word \<Rightarrow>
   error + 'wi option list \<Rightarrow> error + 'wi option list" where
  "put_item new gs0 gs1 k j i r =
     (case r of
        Inl e \<Rightarrow> Inl e
      | Inr arr \<Rightarrow>
          (let idx = unat (i + (j + k * gs1) * gs0)
           in if idx < length arr then Inr (arr[idx := Some (new i j k)])
              else Inl OutOfBounds))"

definition upto_word :: "64 word \<Rightarrow> 64 word list" where
  "upto_word n = map of_nat [0..<unat n]"

definition init_items ::
  "(64 word \<Rightarrow> 64 word \<Rightarrow> 64 word \<Rightarrow> 'wi) \<Rightarrow> 64 word \<Rightarrow> 64 word \<Rightarrow> 64 word \<Rightarrow>
   error + 'wi option list" where
  "init_items new gs0 gs1 gs2 =
     fold (\<lambda>k. fold (\<lambda>j. fold (\<lambda>i. put_item new gs0 gs1 k j i) (upto_word gs0)) (upto_word gs1))
       (upto_word gs2) (Inr (replicate (unat (gs0 * gs1 * gs2)) None))"

text \<open>
  \<open>WorkGroup::WorkGroup\<close>.  \<open>localTemplate\<close> is \<open>kernel.getLocalMemory()\<close>, whose
  clone becomes the local memory; \<open>new i j k\<close> is \<open>new WorkItem(*this, kernel,
  globalMem, i, j, k)\<close>.
\<close>

definition WorkGroup_new ::
  "(64 word \<Rightarrow> 64 word \<Rightarrow> 64 word \<Rightarrow> 'wi) \<Rightarrow> 'mem \<Rightarrow> 'mem \<Rightarrow> out list \<Rightarrow> 32 word \<Rightarrow>
   64 word \<times> 64 word \<times> 64 word \<Rightarrow> 64 word \<times> 64 word \<times> 64 word \<Rightarrow> 64 word \<times> 64 word \<times> 64 word \<Rightarrow>
   error + ('wi, 'mem) WorkGroup" where
  "WorkGroup_new new localTemplate globalMem console workDim wgid globalSize groupSize =
     (case groupSize of (gs0, gs1, gs2) \<Rightarrow>
        (case init_items new gs0 gs1 gs2 of
           Inl e \<Rightarrow> Inl e
         | Inr arr \<Rightarrow>
             if list_all (\<lambda>p. p \<noteq> None) arr
             then Inr \<lparr>m_workDim = workDim, m_groupID = wgid, m_globalSize = globalSize,
                       m_groupSize = groupSize, m_workItems = map the arr,
                       env = \<lparr>m_pendingEvents = [], m_waitEvents = [], m_nextEvent = 1,
                              m_localMemory = localTemplate, m_globalMemory = globalMem,
                              cout = console\<rparr>\<rparr>
             else Inl Uninitialised))"

subsection \<open>Group copy\<close>

text \<open>
  The body of \<open>if (numWaitEvents == m_totalWorkItems)\<close> up to
  \<open>m_waitEvents.clear()\<close>.  \<open>copy_list\<close> is the inner loop over the descriptors of one
  handle, \<open>group_copy\<close> the outer loop over the handles of \<open>m_waitEvents\<close>.
\<close>

fun copy_list :: "('wi, 'mem) Collab \<Rightarrow> AsyncCopy list \<Rightarrow> 'mem Env \<Rightarrow> 'mem Env" where
  "copy_list X [] s = s"
| "copy_list X (c # copies) s =
     copy_list X copies
       (if type c = GLOBAL_TO_LOCAL
        then s\<lparr>m_localMemory :=
                 store X (m_localMemory s) (load X (m_globalMemory s) (src c) (size_c c))
                   (dest c) (size_c c)\<rparr>
        else s\<lparr>m_globalMemory :=
                 store X (m_globalMemory s) (load X (m_localMemory s) (src c) (size_c c))
                   (dest c) (size_c c)\<rparr>)"

fun group_copy :: "('wi, 'mem) Collab \<Rightarrow> 64 word list \<Rightarrow> 'mem Env \<Rightarrow> 'mem Env" where
  "group_copy X [] s = s"
| "group_copy X (e # es) s =
     (let (copies, m) = map_subscript e (m_pendingEvents s);
          s1 = copy_list X copies (s\<lparr>m_pendingEvents := m\<rparr>);
          s2 = s1\<lparr>m_pendingEvents := map_erase e (m_pendingEvents s1)\<rparr>
      in group_copy X es s2)"

definition fulfil :: "('wi, 'mem) Collab \<Rightarrow> 'mem Env \<Rightarrow> 'mem Env" where
  "fulfil X s = (group_copy X (m_waitEvents s) s)\<lparr>m_waitEvents := []\<rparr>"

subsection \<open>The scheduler\<close>

definition print_line :: "string \<Rightarrow> 'mem Env \<Rightarrow> 'mem Env" where
  "print_line txt s = s\<lparr>cout := cout s @ [Str txt, Endl]\<rparr>"

text \<open>\<open>while (state == WorkItem::READY) state = workItem->step(outputInstructions);\<close>\<close>

partial_function (option) step_loop ::
  "('wi, 'mem) Collab \<Rightarrow> bool \<Rightarrow> State \<Rightarrow> 'wi \<Rightarrow> 'mem Env \<Rightarrow>
   (error + State \<times> 'wi \<times> 'mem Env) option" where
  "step_loop X outputInstructions state workItem s =
     (if state = READY
      then (case step X outputInstructions workItem s of
              Inl e \<Rightarrow> Some (Inl e)
            | Inr (state', workItem', s') \<Rightarrow> step_loop X outputInstructions state' workItem' s')
      else Some (Inr (state, workItem, s)))"

text \<open>The chain \<open>if BARRIER ... else if WAIT_EVENT ... else if FINISHED\<close> after the loop.\<close>

definition update_counters ::
  "('wi, 'mem) Collab \<Rightarrow> bool \<Rightarrow> State \<Rightarrow> nat \<Rightarrow> nat \<Rightarrow> nat \<Rightarrow> 'mem Env \<Rightarrow>
   nat \<times> nat \<times> nat \<times> 'mem Env" where
  "update_counters X outputInstructions state numBarriers numWaitEvents numFinished s =
     (if state = BARRIER then
        (numBarriers + 1, numWaitEvents, numFinished,
         if outputInstructions
         then print_line ''Barrier reached.'' (print_line (SMALL_SEPARATOR X) s) else s)
      else if state = WAIT_EVENT then
        (numBarriers, numWaitEvents + 1, numFinished,
         if outputInstructions
         then print_line ''Wait for events reached.'' (print_line (SMALL_SEPARATOR X) s) else s)
      else if state = FINISHED then
        (numBarriers, numWaitEvents, numFinished + 1,
         if outputInstructions
         then print_line ''Kernel completed.'' (print_line (SMALL_SEPARATOR X) s) else s)
      else (numBarriers, numWaitEvents, numFinished, s))"

text \<open>The debug output that precedes the stepping of a work-item.\<close>

definition print_header :: "('wi, 'mem) Collab \<Rightarrow> 'wi \<Rightarrow> 'mem Env \<Rightarrow> 'mem Env" where
  "print_header X workItem s =
     (case getGlobalID X workItem of (g0, g1, g2) \<Rightarrow>
        (print_line (SMALL_SEPARATOR X) s)
          \<lparr>cout := cout (print_line (SMALL_SEPARATOR X) s) @
             [Str ''Work-item ('', Num g0, Str '','', Num g1, Str '','', Num g2, Str ''):'', Endl]\<rparr>)"

text \<open>
  The body of \<open>for (int i = 0; i < m_totalWorkItems; i++)\<close> in \<open>run\<close>, for one \<open>i\<close>:
  the result is the three counters and the work-group, an error when an assertion
  failed inside a step, and no result when the stepping of the work-item never ends.
\<close>

definition visit ::
  "('wi, 'mem) Collab \<Rightarrow> bool \<Rightarrow> nat \<Rightarrow> nat \<Rightarrow> nat \<Rightarrow> nat \<Rightarrow> ('wi, 'mem) WorkGroup \<Rightarrow>
   (error + nat \<times> nat \<times> nat \<times> ('wi, 'mem) WorkGroup) option" where
  "visit X outputInstructions i numBarriers numWaitEvents numFinished wg =
     (let workItem = m_workItems wg ! i in
      if getState X workItem \<noteq> READY
      then Some (Inr (numBarriers, numWaitEvents, numFinished, wg))
      else
        Option.bind
          (step_loop X outputInstructions (getState X workItem) workItem
             (if outputInstructions then print_header X workItem (env wg) else env wg))
          (\<lambda>r. case r of
                  Inl e \<Rightarrow> Some (Inl e)
                | Inr (state, workItem', s') \<Rightarrow>
                    (case update_counters X outputInstructions state
                            numBarriers numWaitEvents numFinished s' of
                       (nb, nw, nf, s'') \<Rightarrow>
                         Some (Inr (nb, nw, nf,
                           wg\<lparr>m_workItems := (m_workItems wg)[i := workItem'], env := s''\<rparr>)))))"

partial_function (option) for_items ::
  "('wi, 'mem) Collab \<Rightarrow> bool \<Rightarrow> nat \<Rightarrow> nat \<Rightarrow> nat \<Rightarrow> nat \<Rightarrow> ('wi, 'mem) WorkGroup \<Rightarrow>
   (error + nat \<times> nat \<times> nat \<times> ('wi, 'mem) WorkGroup) option" where
  "for_items X outputInstructions i numBarriers numWaitEvents numFinished wg =
     (if i < m_totalWorkItems wg
      then Option.bind (visit X outputInstructions i numBarriers numWaitEvents numFinished wg)
             (\<lambda>r. case r of
                     Inl e \<Rightarrow> Some (Inl e)
                   | Inr (nb, nw, nf, wg') \<Rightarrow> for_items X outputInstructions (i + 1) nb nw nf wg')
      else Some (Inr (numBarriers, numWaitEvents, numFinished, wg)))"

text \<open>\<open>for (int i = 0; i < m_totalWorkItems; i++) m_workItems[i]->clearBarrier();\<close>\<close>

function clear_loop :: "('wi, 'mem) Collab \<Rightarrow> nat \<Rightarrow> 'wi list \<Rightarrow> 'wi list" where
  "clear_loop X i ws =
     (if i < length ws then clear_loop X (i + 1) (ws[i := clearBarrier X (ws ! i)]) else ws)"
  by pat_completeness auto
termination
  by (relation "measure (\<lambda>(X, i, ws). length ws - i)") auto

declare clear_loop.simps [simp del]

definition clear_all :: "('wi, 'mem) Collab \<Rightarrow> ('wi, 'mem) WorkGroup \<Rightarrow> ('wi, 'mem) WorkGroup" where
  "clear_all X wg = wg\<lparr>m_workItems := clear_loop X 0 (m_workItems wg)\<rparr>"

text \<open>
  A statement either leaves the function (\<open>Return\<close>, the statement \<open>return;\<close>) or
  hands control to the statement after it (\<open>Next\<close>).
\<close>

datatype 'a flow = Return 'a | Next 'a

definition say :: "string \<Rightarrow> ('wi, 'mem) WorkGroup \<Rightarrow> ('wi, 'mem) WorkGroup" where
  "say txt wg = wg\<lparr>env := print_line txt (env wg)\<rparr>"

text \<open>The statement \<open>if (numBarriers == m_totalWorkItems) ... else if (numBarriers > 0) ...\<close>\<close>

definition barrier_check ::
  "('wi, 'mem) Collab \<Rightarrow> bool \<Rightarrow> nat \<Rightarrow> ('wi, 'mem) WorkGroup \<Rightarrow> ('wi, 'mem) WorkGroup flow" where
  "barrier_check X outputInstructions numBarriers wg =
     (if numBarriers = m_totalWorkItems wg then
        Next (if outputInstructions
              then say ''All work-items reached barrier.'' (clear_all X wg)
              else clear_all X wg)
      else if numBarriers > 0 then Return (say ''Barrier divergence detected.'' wg)
      else Next wg)"

text \<open>
  The statement \<open>if (numWaitEvents == m_totalWorkItems) ... else if (numWaitEvents > 0) ...\<close>
\<close>

definition wait_check ::
  "('wi, 'mem) Collab \<Rightarrow> bool \<Rightarrow> nat \<Rightarrow> ('wi, 'mem) WorkGroup \<Rightarrow> ('wi, 'mem) WorkGroup flow" where
  "wait_check X outputInstructions numWaitEvents wg =
     (if numWaitEvents = m_totalWorkItems wg then
        Next (if outputInstructions
              then say ''All work-items reached wait for events.''
                     (clear_all X (wg\<lparr>env := fulfil X (env wg)\<rparr>))
              else clear_all X (wg\<lparr>env := fulfil X (env wg)\<rparr>))
      else if numWaitEvents > 0 then Return (say ''Wait for events divergence detected.'' wg)
      else Next wg)"

text \<open>
  The loop \<open>while (numFinished < m_totalWorkItems)\<close> of \<open>run\<close>.  \<open>Return wg\<close> is one of
  the two \<open>return\<close> statements inside the loop, \<open>Next wg\<close> the end of the loop.  There is
  no result when the loop, or the stepping of a work-item inside it, never ends.
\<close>

partial_function (option) run_loop ::
  "('wi, 'mem) Collab \<Rightarrow> bool \<Rightarrow> nat \<Rightarrow> ('wi, 'mem) WorkGroup \<Rightarrow>
   (error + ('wi, 'mem) WorkGroup flow) option" where
  "run_loop X outputInstructions numFinished wg =
     (if numFinished < m_totalWorkItems wg
      then Option.bind (for_items X outputInstructions 0 0 0 numFinished wg)
             (\<lambda>r. case r of
                     Inl e \<Rightarrow> Some (Inl e)
                   | Inr (numBarriers, numWaitEvents, numFinished', wg1) \<Rightarrow>
                       (case barrier_check X outputInstructions numBarriers wg1 of
                          Return w \<Rightarrow> Some (Inr (Return w))
                        | Next wg2 \<Rightarrow>
                            (case wait_check X outputInstructions numWaitEvents wg2 of
                               Return w \<Rightarrow> Some (Inr (Return w))
                             | Next wg3 \<Rightarrow> run_loop X outputInstructions numFinished' wg3)))
      else Some (Inr (Next wg)))"

declare step_loop.simps [code]
declare for_items.simps [code]
declare run_loop.simps [code]

text \<open>
  \<open>WorkGroup::run(kernel, outputInstructions)\<close>.  The function returns \<open>void\<close>: what the
  caller has afterwards is the work-group (and the global memory and the output inside
  it).  \<open>Inl\<close> is a failed assertion, which ends the process.
\<close>

definition run ::
  "('wi, 'mem) Collab \<Rightarrow> bool \<Rightarrow> ('wi, 'mem) WorkGroup \<Rightarrow> (error + ('wi, 'mem) WorkGroup) option" where
  "run X outputInstructions wg =
     Option.bind (run_loop X outputInstructions 0 wg)
       (\<lambda>r. case r of
               Inl e \<Rightarrow> Some (Inl e)
             | Inr (Return w) \<Rightarrow> Some (Inr w)
             | Inr (Next w) \<Rightarrow>
                 Some (Inr (if outputInstructions
                            then say ''All work-items completed kernel.'' w else w)))"


section \<open>The behaviour in the words of the specification\<close>

text \<open>
  These definitions follow the specification, not the source; the theorems below compare
  them with the functions above.

  A pass visits the work-items of a list of indices in the order of the list.
\<close>

fun visit_in_order ::
  "('wi, 'mem) Collab \<Rightarrow> bool \<Rightarrow> nat list \<Rightarrow> nat \<Rightarrow> nat \<Rightarrow> nat \<Rightarrow> ('wi, 'mem) WorkGroup \<Rightarrow>
   (error + nat \<times> nat \<times> nat \<times> ('wi, 'mem) WorkGroup) option" where
  "visit_in_order X outputInstructions [] nb nw nf wg = Some (Inr (nb, nw, nf, wg))"
| "visit_in_order X outputInstructions (i # rest) nb nw nf wg =
     Option.bind (visit X outputInstructions i nb nw nf wg)
       (\<lambda>r. case r of
               Inl e \<Rightarrow> Some (Inl e)
             | Inr (nb', nw', nf', wg') \<Rightarrow> visit_in_order X outputInstructions rest nb' nw' nf' wg')"

text \<open>\<open>step_n X outputInstructions n\<close> steps a work-item \<open>n\<close> times.\<close>

fun step_n ::
  "('wi, 'mem) Collab \<Rightarrow> bool \<Rightarrow> nat \<Rightarrow> State \<times> 'wi \<times> 'mem Env \<Rightarrow> error + State \<times> 'wi \<times> 'mem Env" where
  "step_n X outputInstructions 0 c = Inr c"
| "step_n X outputInstructions (Suc n) c =
     (case step X outputInstructions (fst (snd c)) (snd (snd c)) of
        Inl e \<Rightarrow> Inl e
      | Inr c' \<Rightarrow> step_n X outputInstructions n c')"

text \<open>
  One descriptor is executed on the pair of local and global memory: the direction
  selects destination and source, \<open>size_c\<close> bytes are loaded from the source at \<open>src\<close>
  and stored to the destination at \<open>dest\<close>.
\<close>

definition execute_copy :: "('wi, 'mem) Collab \<Rightarrow> AsyncCopy \<Rightarrow> 'mem \<times> 'mem \<Rightarrow> 'mem \<times> 'mem" where
  "execute_copy X c lg =
     (case lg of (local, global) \<Rightarrow>
        if type c = GLOBAL_TO_LOCAL
        then (store X local (load X global (src c) (size_c c)) (dest c) (size_c c), global)
        else (local, store X global (load X local (src c) (size_c c)) (dest c) (size_c c)))"

definition descriptors_of :: "(64 word \<times> AsyncCopy list) list \<Rightarrow> 64 word \<Rightarrow> AsyncCopy list" where
  "descriptors_of m e = (case map_of m e of None \<Rightarrow> [] | Some cs \<Rightarrow> cs)"

text \<open>
  Group fulfilment: the descriptors of every awaited handle, handle by handle in the
  order of \<open>m_waitEvents\<close> and in registration order under each handle, are executed;
  the awaited handles leave the registry; \<open>m_waitEvents\<close> is empty afterwards.
\<close>

definition spec_fulfil :: "('wi, 'mem) Collab \<Rightarrow> 'mem Env \<Rightarrow> 'mem Env" where
  "spec_fulfil X s =
     (case fold (execute_copy X)
             (concat (map (descriptors_of (m_pendingEvents s)) (m_waitEvents s)))
             (m_localMemory s, m_globalMemory s) of
        (local, global) \<Rightarrow>
          s\<lparr>m_pendingEvents := filter (\<lambda>p. fst p \<notin> set (m_waitEvents s)) (m_pendingEvents s),
            m_waitEvents := [],
            m_localMemory := local,
            m_globalMemory := global\<rparr>)"

section \<open>A scripted kernel\<close>

text \<open>
  Modelled from the spec: a work-item and a memory to run the scheduler on, since
  WorkItem.cpp and Memory.cpp are not part of the verified source.  The theorems do not
  depend on them; they serve as concrete inputs.

  A work-item carries its state, the rest of its program and the handle of its last
  copy request.  A program is a list of actions; a step executes the first action, and
  the empty program finishes.  \<open>clearBarrier\<close> releases a suspended work-item to
  \<open>READY\<close>.  A memory is a list of bytes; \<open>load\<close> reads a range, \<open>store\<close> overwrites
  a range.
\<close>

datatype action = Compute | Barrier | Copy AsyncCopy | Wait

record item =
  state :: State
  program :: "action list"
  last_event :: "64 word"
  gid :: "64 word \<times> 64 word \<times> 64 word"

definition item_step :: "bool \<Rightarrow> item \<Rightarrow> (8 word list) Env \<Rightarrow> error + (State \<times> item \<times> (8 word list) Env)" where
  "item_step outputInstructions w s =
     (case program w of
        [] \<Rightarrow> Inr (FINISHED, w\<lparr>state := FINISHED\<rparr>, s)
      | Compute # p \<Rightarrow> Inr (READY, w\<lparr>program := p\<rparr>, s)
      | Barrier # p \<Rightarrow> Inr (BARRIER, w\<lparr>state := BARRIER, program := p\<rparr>, s)
      | Copy c # p \<Rightarrow>
          (case async_copy c 0 s of
             (e, s') \<Rightarrow> Inr (READY, w\<lparr>program := p, last_event := e\<rparr>, s'))
      | Wait # p \<Rightarrow>
          (case wait_event (last_event w) s of
             Inl e \<Rightarrow> Inl e
           | Inr s' \<Rightarrow> Inr (WAIT_EVENT, w\<lparr>state := WAIT_EVENT, program := p\<rparr>, s')))"

definition item_clearBarrier :: "item \<Rightarrow> item" where
  "item_clearBarrier w =
     (if state w = BARRIER \<or> state w = WAIT_EVENT then w\<lparr>state := READY\<rparr> else w)"

definition bytes_load :: "8 word list \<Rightarrow> 64 word \<Rightarrow> 64 word \<Rightarrow> 8 word list" where
  "bytes_load mem address n = take (unat n) (drop (unat address) mem)"

definition bytes_store :: "8 word list \<Rightarrow> 8 word list \<Rightarrow> 64 word \<Rightarrow> 64 word \<Rightarrow> 8 word list" where
  "bytes_store mem buffer address n =
     take (unat address) mem @ take (unat n) buffer @ drop (unat address + unat n) mem"

definition scripted :: "(item, 8 word list) Collab" where
  "scripted =
     \<lparr>getState = state, step = item_step, clearBarrier = item_clearBarrier,
      getGlobalID = gid, load = bytes_load, store = bytes_store,
      SMALL_SEPARATOR = ''--------''\<rparr>"

definition new_item :: "action list \<Rightarrow> 64 word \<Rightarrow> 64 word \<Rightarrow> 64 word \<Rightarrow> item" where
  "new_item p i j k = \<lparr>state = READY, program = p, last_event = 0, gid = (i, j, k)\<rparr>"

definition env0 :: "8 word list \<Rightarrow> 8 word list \<Rightarrow> (8 word list) Env" where
  "env0 local global =
     \<lparr>m_pendingEvents = [], m_waitEvents = [], m_nextEvent = 1,
      m_localMemory = local, m_globalMemory = global, cout = []\<rparr>"

definition group_of :: "item list \<Rightarrow> (item, 8 word list) WorkGroup" where
  "group_of ws =
     \<lparr>m_workDim = 1, m_groupID = (0, 0, 0), m_globalSize = (of_nat (length ws), 1, 1),
      m_groupSize = (of_nat (length ws), 1, 1), m_workItems = ws,
      env = env0 [0, 0, 0, 0] [1, 2, 3, 4]\<rparr>"

definition item_at :: "State \<Rightarrow> action list \<Rightarrow> 64 word \<Rightarrow> item" where
  "item_at st p i = \<lparr>state = st, program = p, last_event = 0, gid = (i, 0, 0)\<rparr>"

definition copy2 :: AsyncCopy where
  "copy2 = \<lparr>instruction = 7, type = GLOBAL_TO_LOCAL, dest = 1, src = 0, size_c = 2\<rparr>"

text \<open>Two work-items that both reach a barrier and then finish.\<close>

definition g_barrier :: "(item, 8 word list) WorkGroup" where
  "g_barrier = group_of [item_at READY [Barrier] 0, item_at READY [Barrier] 1]"

text \<open>Three work-items, of which the second finishes without reaching the barrier.\<close>

definition g_barrier_div :: "(item, 8 word list) WorkGroup" where
  "g_barrier_div =
     group_of [item_at READY [Barrier] 0, item_at READY [] 1, item_at READY [Barrier] 2]"

text \<open>Two work-items that request the same copy, await it and finish.\<close>

definition g_wait :: "(item, 8 word list) WorkGroup" where
  "g_wait = group_of [item_at READY [Copy copy2, Wait] 0, item_at READY [Copy copy2, Wait] 1]"

text \<open>Two work-items, of which the second finishes without awaiting the copy.\<close>

definition g_wait_div :: "(item, 8 word list) WorkGroup" where
  "g_wait_div = group_of [item_at READY [Copy copy2, Wait] 0, item_at READY [] 1]"

text \<open>One work-item at a barrier, one awaiting a copy, one finished.\<close>

definition g_mixed :: "(item, 8 word list) WorkGroup" where
  "g_mixed =
     group_of [item_at READY [Barrier] 0, item_at READY [Copy copy2, Wait] 1, item_at READY [] 2]"

text \<open>The environment after both requests for \<open>copy2\<close> and the wait for its handle.\<close>

definition env_pending :: "(8 word list) Env" where
  "env_pending =
     \<lparr>m_pendingEvents = [(1, [copy2])], m_waitEvents = [1], m_nextEvent = 2,
      m_localMemory = [0, 0, 0, 0], m_globalMemory = [1, 2, 3, 4], cout = []\<rparr>"

definition item_ev :: "State \<Rightarrow> action list \<Rightarrow> 64 word \<Rightarrow> item" where
  "item_ev st p i = \<lparr>state = st, program = p, last_event = 1, gid = (i, 0, 0)\<rparr>"

text \<open>Projections of results: the tallies of a pass, and what a run has printed.\<close>

definition tallies ::
  "(error + nat \<times> nat \<times> nat \<times> ('wi, 'mem) WorkGroup) option \<Rightarrow> (nat \<times> nat \<times> nat) option" where
  "tallies r = (case r of Some (Inr (nb, nw, nf, wg)) \<Rightarrow> Some (nb, nw, nf) | _ \<Rightarrow> None)"

definition printed :: "(error + ('wi, 'mem) WorkGroup) option \<Rightarrow> out list option" where
  "printed r = (case r of Some (Inr wg) \<Rightarrow> Some (cout (env wg)) | _ \<Rightarrow> None)"

section \<open>Auxiliary notions and concrete inputs\<close>

text \<open>Two descriptors that differ in the size only, and a registry holding the first.\<close>

definition copy16 :: AsyncCopy where
  "copy16 = \<lparr>instruction = 100, type = GLOBAL_TO_LOCAL, dest = 0, src = 0, size_c = 16\<rparr>"

definition copy8 :: AsyncCopy where
  "copy8 = \<lparr>instruction = 100, type = GLOBAL_TO_LOCAL, dest = 0, src = 0, size_c = 8\<rparr>"

definition env1 :: "nat Env" where
  "env1 = \<lparr>m_pendingEvents = [(1, [copy16])], m_waitEvents = [], m_nextEvent = 2,
           m_localMemory = 0, m_globalMemory = 0, cout = []\<rparr>"

text \<open>
  The life of the event registry of one work-group is a sequence of the three operations
  that touch it: a copy request (\<open>async_copy\<close>, called from a step), a wait
  (\<open>wait_event\<close>, called from a step; a failed assertion ends the life, which is
  modelled as no change) and the group copy of \<open>run\<close>.  \<open>apply_op\<close> carries, next to
  the state, the list of the handles allocated so far, each with the descriptor it was
  allocated for.
\<close>

datatype event_op = Request AsyncCopy "64 word" | Await "64 word" | Fulfil

fun apply_op ::
  "('wi, 'mem) Collab \<Rightarrow> event_op \<Rightarrow> (64 word \<times> AsyncCopy) list \<times> 'mem Env \<Rightarrow>
   (64 word \<times> AsyncCopy) list \<times> 'mem Env" where
  "apply_op X (Request copy event) (log, s) =
     (case async_copy copy event s of
        (h, s') \<Rightarrow>
          (if find_copy (m_pendingEvents s) copy = None then log @ [(h, copy)] else log, s'))"
| "apply_op X (Await event) (log, s) =
     (case wait_event event s of Inl e \<Rightarrow> (log, s) | Inr s' \<Rightarrow> (log, s'))"
| "apply_op X Fulfil (log, s) = (log, fulfil X s)"

text \<open>Every pending handle holds exactly the descriptor it was allocated for.\<close>

definition registered :: "(64 word \<times> AsyncCopy) list \<Rightarrow> (64 word \<times> AsyncCopy list) list \<Rightarrow> bool" where
  "registered log m \<longleftrightarrow> (\<forall>(h, cs) \<in> set m. \<exists>c. cs = [c] \<and> (h, c) \<in> set log)"

text \<open>A life in which a fulfilled descriptor is requested again.\<close>

definition ops1 :: "event_op list" where
  "ops1 = [Request copy16 0, Request copy8 0, Request copy16 5, Await 1, Fulfil, Request copy16 0]"

text \<open>The coordinates in the order in which the three nested loops of the constructor
  reach them.\<close>

definition coords :: "64 word \<Rightarrow> 64 word \<Rightarrow> 64 word \<Rightarrow> (nat \<times> nat \<times> nat) list" where
  "coords gs0 gs1 gs2 =
     List.product [0..<unat gs2] (List.product [0..<unat gs1] [0..<unat gs0])"

text \<open>A group of 2 by 3 by 2 work-items, and a group whose first work-item has finished.\<close>

definition g_grid :: "error + (item, 8 word list) WorkGroup" where
  "g_grid = WorkGroup_new (new_item []) [] [] [] 3 (0, 0, 0) (4, 3, 2) (2, 3, 2)"

definition g_skip :: "(item, 8 word list) WorkGroup" where
  "g_skip = group_of [item_at FINISHED [] 0, item_at READY [Compute, Barrier] 1]"

text \<open>
  What the accessors \<open>getGlobalSize\<close>, \<open>getGroupID\<close>, \<open>getGroupSize\<close> and
  \<open>getWorkDim\<close> give, and what a caller holds after \<open>run\<close>: the values of the
  accessors, the local memory (\<open>getLocalMemory\<close>) and the global memory.
\<close>

definition getters ::
  "('wi, 'mem) WorkGroup \<Rightarrow>
   (64 word \<times> 64 word \<times> 64 word) \<times> (64 word \<times> 64 word \<times> 64 word) \<times>
   (64 word \<times> 64 word \<times> 64 word) \<times> 32 word" where
  "getters wg = (m_globalSize wg, m_groupID wg, m_groupSize wg, m_workDim wg)"

definition returned ::
  "(error + ('wi, 'mem) WorkGroup) option \<Rightarrow>
   (((64 word \<times> 64 word \<times> 64 word) \<times> (64 word \<times> 64 word \<times> 64 word) \<times>
     (64 word \<times> 64 word \<times> 64 word) \<times> 32 word) \<times> 'mem \<times> 'mem) option" where
  "returned r =
     (case r of
        Some (Inr wg) \<Rightarrow> Some (getters wg, m_localMemory (env wg), m_globalMemory (env wg))
      | _ \<Rightarrow> None)"

text \<open>
  Two work-items of which only the first reaches the barrier; two work-items that finish
  at once; two work-items of which the first waits for an event that nobody requested.
\<close>

definition g_div2 :: "(item, 8 word list) WorkGroup" where
  "g_div2 = group_of [item_at READY [Barrier] 0, item_at READY [] 1]"

definition g_ok2 :: "(item, 8 word list) WorkGroup" where
  "g_ok2 = group_of [item_at READY [] 0, item_at READY [] 1]"

text \<open>The work-group carried by either kind of exit.\<close>

definition of_flow :: "'a flow \<Rightarrow> 'a" where
  "of_flow f = (case f of Return w \<Rightarrow> w | Next w \<Rightarrow> w)"

definition g_bad_wait :: "(item, 8 word list) WorkGroup" where
  "g_bad_wait = group_of [item_at READY [Wait] 0, item_at READY [] 1]"

text \<open>
  Progress of a kernel, for a distance \<open>dist\<close> of a work-item from its end.
  \<open>progressing\<close> is the condition in the words of the specification: a step of a
  \<open>READY\<close> work-item succeeds, reports the state the work-item is then in, and either
  changes the state or moves the work-item closer to its end.  \<open>approaching\<close> asks
  for the second alternative: a step of a \<open>READY\<close> work-item either fails (an
  assertion inside the step, as in \<open>wait_event\<close>) or reports the state the work-item
  is then in and moves the work-item closer to its end; and \<open>clearBarrier\<close> makes a
  suspended work-item \<open>READY\<close>, leaves any other state alone and does not move the
  work-item away from its end.  \<open>raises X oi e\<close> says that some step of a \<open>READY\<close>
  work-item fails with the error \<open>e\<close>.  \<open>cnt X st ws\<close> counts the work-items in
  state \<open>st\<close>.
\<close>

definition progressing :: "('wi, 'mem) Collab \<Rightarrow> ('wi \<Rightarrow> nat) \<Rightarrow> bool" where
  "progressing X dist \<longleftrightarrow>
     (\<forall>oi w s. getState X w = READY \<longrightarrow>
        (\<exists>st w' s'. step X oi w s = Inr (st, w', s') \<and> getState X w' = st \<and>
           (st \<noteq> READY \<or> dist w' < dist w)))"

definition approaching :: "('wi, 'mem) Collab \<Rightarrow> ('wi \<Rightarrow> nat) \<Rightarrow> bool" where
  "approaching X dist \<longleftrightarrow>
     (\<forall>oi w s. getState X w = READY \<longrightarrow>
        (\<exists>e. step X oi w s = Inl e) \<or>
        (\<exists>st w' s'. step X oi w s = Inr (st, w', s') \<and> getState X w' = st \<and>
           dist w' < dist w)) \<and>
     (\<forall>w. dist (clearBarrier X w) \<le> dist w \<and>
          getState X (clearBarrier X w) =
            (if getState X w = BARRIER \<or> getState X w = WAIT_EVENT then READY
             else getState X w))"

definition raises :: "('wi, 'mem) Collab \<Rightarrow> bool \<Rightarrow> error \<Rightarrow> bool" where
  "raises X oi e \<longleftrightarrow> (\<exists>w s. getState X w = READY \<and> step X oi w s = Inl e)"

definition cnt :: "('wi, 'mem) Collab \<Rightarrow> State \<Rightarrow> 'wi list \<Rightarrow> nat" where
  "cnt X st ws = length (filter (\<lambda>w. getState X w = st) ws)"

text \<open>
  Modelled from the spec: a second kernel for the scripted work-items, in which every
  action but \<open>Barrier\<close> is a computation, so that no step can fail or stand still.
  \<open>remaining\<close> is the distance of a work-item from its end.
\<close>

definition plain_step ::
  "bool \<Rightarrow> item \<Rightarrow> (8 word list) Env \<Rightarrow> error + (State \<times> item \<times> (8 word list) Env)" where
  "plain_step outputInstructions w s =
     (case program w of
        [] \<Rightarrow> Inr (FINISHED, w\<lparr>state := FINISHED\<rparr>, s)
      | a # p \<Rightarrow>
          if a = Barrier then Inr (BARRIER, w\<lparr>state := BARRIER, program := p\<rparr>, s)
          else Inr (READY, w\<lparr>program := p\<rparr>, s))"

definition plain :: "(item, 8 word list) Collab" where
  "plain = scripted\<lparr>step := plain_step\<rparr>"

definition remaining :: "item \<Rightarrow> nat" where
  "remaining w = (if state w = FINISHED then 0 else 1 + length (program w))"

text \<open>
  Modelled from the spec: a third kernel for the scripted work-items, whose every step
  reaches a barrier (a kernel of the form \<open>for (;;) barrier(...)\<close>), and a group of one
  work-item to run it on.
\<close>

definition forever_step ::
  "bool \<Rightarrow> item \<Rightarrow> (8 word list) Env \<Rightarrow> error + (State \<times> item \<times> (8 word list) Env)" where
  "forever_step outputInstructions w s = Inr (BARRIER, w\<lparr>state := BARRIER\<rparr>, s)"

definition forever :: "(item, 8 word list) Collab" where
  "forever = scripted\<lparr>step := forever_step\<rparr>"

definition g_loop :: "(item, 8 word list) WorkGroup" where
  "g_loop = group_of [item_at READY [] 0]"

text \<open>The number of finished work-items a run leaves, and a group without work-items.\<close>

definition finished_items ::
  "('wi, 'mem) Collab \<Rightarrow> (error + ('wi, 'mem) WorkGroup) option \<Rightarrow> nat option" where
  "finished_items X r =
     (case r of Some (Inr wg) \<Rightarrow> Some (cnt X FINISHED (m_workItems wg)) | _ \<Rightarrow> None)"

definition g_empty :: "(item, 8 word list) WorkGroup" where
  "g_empty = group_of []"

section \<open>Properties of the event registry\<close>

lemma AsyncCopy_eq_iff: "AsyncCopy_eq a b \<longleftrightarrow> a = b"
  by (cases a, cases b) (auto simp: AsyncCopy_eq_def)

lemma map_of_map_put: "map_of (map_put k v m) = (map_of m)(k \<mapsto> v)"
  by (induction m) (auto simp: fun_eq_iff)

lemma map_put_map_put: "map_put k v2 (map_put k v1 m) = map_put k v2 m"
  by (induction m) auto

lemma find_copy_None:
  "find_copy m copy = None \<longleftrightarrow> (\<forall>e cs. (e, cs) \<in> set m \<longrightarrow> copy \<notin> set cs)"
  by (induction m copy rule: find_copy.induct) (auto simp: list_ex_iff AsyncCopy_eq_iff)

lemma find_copy_Some:
  "find_copy m copy = Some e \<Longrightarrow> \<exists>cs. (e, cs) \<in> set m \<and> copy \<in> set cs"
  by (induction m copy rule: find_copy.induct)
    (auto simp: list_ex_iff AsyncCopy_eq_iff split: if_splits)

lemma async_copy_found:
  "find_copy (m_pendingEvents s) copy = Some e \<Longrightarrow> async_copy copy event s = (e, s)"
  by (simp add: async_copy_def)

lemma async_copy_fresh:
  "find_copy (m_pendingEvents s) copy = None \<Longrightarrow>
   async_copy copy event s =
     (m_nextEvent s,
      s\<lparr>m_nextEvent := m_nextEvent s + 1,
        m_pendingEvents := map_put (m_nextEvent s) [copy] (m_pendingEvents s)\<rparr>)"
  by (simp add: async_copy_def map_subscript_def map_of_map_put map_put_map_put Let_def)

text \<open>
  C3 (event dedup).  When some pending handle holds a descriptor that agrees with the
  request in all five fields, \<open>async_copy\<close> leaves the state as it is and returns a
  pending handle that holds the request.  When every pending descriptor differs from the
  request in at least one field, \<open>async_copy\<close> returns the value of the counter, adds
  one to the counter and stores the singleton list of the request under the returned
  handle, leaving the lists of all other handles as they were.
\<close>

theorem async_copy_dedup:
  "((\<exists>e cs c. (e, cs) \<in> set (m_pendingEvents s) \<and> c \<in> set cs \<and>
        instruction c = instruction copy \<and> type c = type copy \<and> dest c = dest copy \<and>
        src c = src copy \<and> size_c c = size_c copy) \<longrightarrow>
      snd (async_copy copy event s) = s \<and>
      (\<exists>cs. (fst (async_copy copy event s), cs) \<in> set (m_pendingEvents s) \<and> copy \<in> set cs))
   \<and>
   ((\<forall>e cs c. (e, cs) \<in> set (m_pendingEvents s) \<and> c \<in> set cs \<longrightarrow>
        instruction c \<noteq> instruction copy \<or> type c \<noteq> type copy \<or> dest c \<noteq> dest copy \<or>
        src c \<noteq> src copy \<or> size_c c \<noteq> size_c copy) \<longrightarrow>
      async_copy copy event s =
        (m_nextEvent s,
         s\<lparr>m_nextEvent := m_nextEvent s + 1,
           m_pendingEvents := map_put (m_nextEvent s) [copy] (m_pendingEvents s)\<rparr>) \<and>
      map_of (m_pendingEvents (snd (async_copy copy event s))) (m_nextEvent s) = Some [copy] \<and>
      (\<forall>k. k \<noteq> m_nextEvent s \<longrightarrow>
         map_of (m_pendingEvents (snd (async_copy copy event s))) k =
         map_of (m_pendingEvents s) k))"
proof (intro conjI impI)
  assume "\<exists>e cs c. (e, cs) \<in> set (m_pendingEvents s) \<and> c \<in> set cs \<and>
        instruction c = instruction copy \<and> type c = type copy \<and> dest c = dest copy \<and>
        src c = src copy \<and> size_c c = size_c copy"
  then obtain e cs c
    where "(e, cs) \<in> set (m_pendingEvents s)" "c \<in> set cs" "AsyncCopy_eq c copy"
    unfolding AsyncCopy_eq_def by blast
  then have "find_copy (m_pendingEvents s) copy \<noteq> None"
    by (auto simp: find_copy_None AsyncCopy_eq_iff)
  then obtain h where h: "find_copy (m_pendingEvents s) copy = Some h" by blast
  show "snd (async_copy copy event s) = s" by (simp add: async_copy_found [OF h])
  show "\<exists>cs. (fst (async_copy copy event s), cs) \<in> set (m_pendingEvents s) \<and> copy \<in> set cs"
    using find_copy_Some [OF h] by (simp add: async_copy_found [OF h])
next
  assume a: "\<forall>e cs c. (e, cs) \<in> set (m_pendingEvents s) \<and> c \<in> set cs \<longrightarrow>
        instruction c \<noteq> instruction copy \<or> type c \<noteq> type copy \<or> dest c \<noteq> dest copy \<or>
        src c \<noteq> src copy \<or> size_c c \<noteq> size_c copy"
  have n: "find_copy (m_pendingEvents s) copy = None"
    unfolding find_copy_None using a by blast
  show "async_copy copy event s =
        (m_nextEvent s,
         s\<lparr>m_nextEvent := m_nextEvent s + 1,
           m_pendingEvents := map_put (m_nextEvent s) [copy] (m_pendingEvents s)\<rparr>)"
    by (rule async_copy_fresh [OF n])
  show "map_of (m_pendingEvents (snd (async_copy copy event s))) (m_nextEvent s) = Some [copy]"
    by (simp add: async_copy_fresh [OF n] map_of_map_put)
  show "\<forall>k. k \<noteq> m_nextEvent s \<longrightarrow>
         map_of (m_pendingEvents (snd (async_copy copy event s))) k =
         map_of (m_pendingEvents s) k"
    by (simp add: async_copy_fresh [OF n] map_of_map_put)
qed

theorem async_copy_dedup_witness:
  "async_copy copy16 7 env1 = (1, env1) \<and>
   async_copy copy8 7 env1 =
     (2, env1\<lparr>m_nextEvent := 3, m_pendingEvents := [(1, [copy16]), (2, [copy8])]\<rparr>)"
proof -
  have present: "\<exists>e cs c. (e, cs) \<in> set (m_pendingEvents env1) \<and> c \<in> set cs \<and>
        instruction c = instruction copy16 \<and> type c = type copy16 \<and> dest c = dest copy16 \<and>
        src c = src copy16 \<and> size_c c = size_c copy16"
    by (simp add: env1_def)
  have absent: "\<forall>e cs c. (e, cs) \<in> set (m_pendingEvents env1) \<and> c \<in> set cs \<longrightarrow>
        instruction c \<noteq> instruction copy8 \<or> type c \<noteq> type copy8 \<or> dest c \<noteq> dest copy8 \<or>
        src c \<noteq> src copy8 \<or> size_c c \<noteq> size_c copy8"
    by (simp add: env1_def copy16_def copy8_def)
  from async_copy_dedup [of env1 copy16 7, THEN conjunct1, THEN mp, OF present]
  have "snd (async_copy copy16 7 env1) = env1"
    and "\<exists>cs. (fst (async_copy copy16 7 env1), cs) \<in> set (m_pendingEvents env1)"
    by blast+
  then have 1: "async_copy copy16 7 env1 = (1, env1)"
    by (cases "async_copy copy16 7 env1") (auto simp: env1_def)
  from async_copy_dedup [of env1 copy8 7, THEN conjunct2, THEN mp, OF absent]
  have 2: "async_copy copy8 7 env1 =
     (2, env1\<lparr>m_nextEvent := 3, m_pendingEvents := [(1, [copy16]), (2, [copy8])]\<rparr>)"
    by (simp add: env1_def)
  from 1 2 show ?thesis by simp
qed

text \<open>
  C10.  The second argument of \<open>async_copy\<close> has no effect: the handle returned and the
  state left behind are the same for any two values of it.
\<close>

theorem async_copy_event_ignored: "async_copy copy e1 s = async_copy copy e2 s"
  by (simp add: async_copy_def)

lemma set_set_insert: "set (set_insert x xs) = insert x (set xs)"
  by (induction xs) auto

lemma set_insert_idem: "set_insert x (set_insert x xs) = set_insert x xs"
  by (induction xs) auto

lemma sorted_set_insert: "sorted_wrt (<) xs \<Longrightarrow> sorted_wrt (<) (set_insert x xs)"
  by (induction xs) (auto simp: set_set_insert)

lemma sorted_count_one:
  fixes x :: "'a::linorder"
  shows "sorted_wrt (<) xs \<Longrightarrow> x \<in> set xs \<Longrightarrow> count_list xs x = 1"
proof (induction xs)
  case Nil
  then show ?case by simp
next
  case (Cons a xs)
  show ?case
  proof (cases "x = a")
    case True
    from Cons.prems(1) have "a \<notin> set xs" by auto
    then have "count_list xs a = 0" by (simp add: count_list_0_iff)
    with True show ?thesis by simp
  next
    case False
    with Cons show ?thesis by simp
  qed
qed

text \<open>
  C5 (contract of \<open>wait_event\<close>).  For a handle that is not in the pending registry the
  call is a failed assertion and no state comes back.  For a handle that is pending the
  call changes nothing but \<open>m_waitEvents\<close>, whose elements are then the old ones and the
  handle; a second call with the same handle changes nothing any more; and when
  \<open>m_waitEvents\<close> was a set (strictly ascending) it is one afterwards and holds the
  handle exactly once.
\<close>

theorem wait_event_contract:
  "(map_of (m_pendingEvents s) event = None \<longrightarrow> wait_event event s = Inl AssertionFailed) \<and>
   (map_of (m_pendingEvents s) event \<noteq> None \<longrightarrow>
      (\<exists>s'. wait_event event s = Inr s' \<and>
            s' = s\<lparr>m_waitEvents := set_insert event (m_waitEvents s)\<rparr> \<and>
            set (m_waitEvents s') = insert event (set (m_waitEvents s)) \<and>
            wait_event event s' = Inr s' \<and>
            (sorted_wrt (<) (m_waitEvents s) \<longrightarrow>
               sorted_wrt (<) (m_waitEvents s') \<and> count_list (m_waitEvents s') event = 1)))"
  by (auto simp: wait_event_def set_set_insert set_insert_idem sorted_set_insert
      sorted_count_one)

theorem wait_event_contract_witness:
  "wait_event 9 env1 = Inl AssertionFailed \<and>
   wait_event 1 env1 = Inr (env1\<lparr>m_waitEvents := [1]\<rparr>) \<and>
   wait_event 1 (env1\<lparr>m_waitEvents := [1]\<rparr>) = Inr (env1\<lparr>m_waitEvents := [1]\<rparr>) \<and>
   count_list (m_waitEvents (env1\<lparr>m_waitEvents := [1]\<rparr>)) 1 = 1"
proof -
  have absent: "map_of (m_pendingEvents env1) 9 = None" by (simp add: env1_def)
  have present: "map_of (m_pendingEvents env1) 1 \<noteq> None" by (simp add: env1_def)
  have sorted: "sorted_wrt (<) (m_waitEvents env1)" by (simp add: env1_def)
  from wait_event_contract [of env1 9, THEN conjunct1, THEN mp, OF absent]
  have 1: "wait_event 9 env1 = Inl AssertionFailed" .
  from wait_event_contract [of env1 1, THEN conjunct2, THEN mp, OF present] sorted
  obtain s' where s': "wait_event 1 env1 = Inr s'"
      "s' = env1\<lparr>m_waitEvents := set_insert 1 (m_waitEvents env1)\<rparr>"
      "wait_event 1 s' = Inr s'" "count_list (m_waitEvents s') 1 = 1"
    by blast
  have "s' = env1\<lparr>m_waitEvents := [1]\<rparr>"
    using s'(2) by (simp add: env1_def)
  with 1 s' show ?thesis by simp
qed

section \<open>Properties of a pass of the scheduler\<close>

lemma update_counters_cases:
  assumes "update_counters X oi st nb nw nf s = (nb', nw', nf', s')"
  shows "nb \<le> nb' \<and> nw \<le> nw' \<and> nf \<le> nf' \<and> nb' + nw' + nf' \<le> nb + nw + nf + 1 \<and>
         (nb' = nb + 1 \<longleftrightarrow> st = BARRIER) \<and> (nw' = nw + 1 \<longleftrightarrow> st = WAIT_EVENT) \<and>
         (nf' = nf + 1 \<longleftrightarrow> st = FINISHED)"
  using assms by (auto simp: update_counters_def split: if_splits)

lemma visit_frame:
  assumes "visit X oi i nb nw nf wg = Some (Inr (nb', nw', nf', wg'))"
  shows "length (m_workItems wg') = length (m_workItems wg) \<and>
         m_workDim wg' = m_workDim wg \<and> m_groupID wg' = m_groupID wg \<and>
         m_globalSize wg' = m_globalSize wg \<and> m_groupSize wg' = m_groupSize wg \<and>
         nb \<le> nb' \<and> nw \<le> nw' \<and> nf \<le> nf' \<and> nb' + nw' + nf' \<le> nb + nw + nf + 1"
proof (cases "getState X (m_workItems wg ! i) = READY")
  case False
  with assms show ?thesis by (simp add: visit_def)
next
  case True
  with assms obtain st w' s' s'' where
    u: "update_counters X oi st nb nw nf s' = (nb', nw', nf', s'')"
    and w: "wg' = wg\<lparr>m_workItems := (m_workItems wg)[i := w'], env := s''\<rparr>"
    by (auto simp: visit_def Let_def split: Option.bind_splits sum.splits prod.splits)
  from w have "length (m_workItems wg') = length (m_workItems wg)"
    "m_workDim wg' = m_workDim wg" "m_groupID wg' = m_groupID wg"
    "m_globalSize wg' = m_globalSize wg" "m_groupSize wg' = m_groupSize wg"
    by simp_all
  with update_counters_cases [OF u] show ?thesis by simp
qed

lemma for_items_eq:
  "for_items X oi i nb nw nf wg = visit_in_order X oi [i..<m_totalWorkItems wg] nb nw nf wg"
proof (induction "m_totalWorkItems wg - i" arbitrary: i nb nw nf wg)
  case 0
  then show ?case by (subst for_items.simps) simp
next
  case (Suc n)
  then have lt: "i < m_totalWorkItems wg" by simp
  then have up: "[i..<m_totalWorkItems wg] = i # [Suc i..<m_totalWorkItems wg]"
    by (simp add: upt_conv_Cons)
  show ?case
  proof (cases "visit X oi i nb nw nf wg")
    case None
    then show ?thesis using lt by (subst for_items.simps) (simp add: up)
  next
    case (Some r)
    show ?thesis
    proof (cases r)
      case (Inl e)
      with Some show ?thesis using lt by (subst for_items.simps) (simp add: up)
    next
      case (Inr t)
      obtain nb' nw' nf' wg' where t: "t = (nb', nw', nf', wg')" by (cases t) auto
      from visit_frame [OF Some [unfolded Inr t]]
      have len: "m_totalWorkItems wg' = m_totalWorkItems wg"
        by (simp add: m_totalWorkItems_def)
      with Suc.hyps(2) have "n = m_totalWorkItems wg' - Suc i" by simp
      from Suc.hyps(1) [OF this]
      have "for_items X oi (Suc i) nb' nw' nf' wg' =
            visit_in_order X oi [Suc i..<m_totalWorkItems wg] nb' nw' nf' wg'"
        by (simp add: len)
      with Some Inr t show ?thesis using lt by (subst for_items.simps) (simp add: up)
    qed
  qed
qed

lemma visit_in_order_frame:
  assumes "visit_in_order X oi is nb nw nf wg = Some (Inr (nb', nw', nf', wg'))"
  shows "length (m_workItems wg') = length (m_workItems wg) \<and>
         m_workDim wg' = m_workDim wg \<and> m_groupID wg' = m_groupID wg \<and>
         m_globalSize wg' = m_globalSize wg \<and> m_groupSize wg' = m_groupSize wg \<and>
         nb \<le> nb' \<and> nw \<le> nw' \<and> nf \<le> nf' \<and> nb' + nw' + nf' \<le> nb + nw + nf + length is"
  using assms
proof (induction "is" arbitrary: nb nw nf wg)
  case Nil
  then show ?case by simp
next
  case (Cons i rest)
  from Cons.prems obtain nb1 nw1 nf1 wg1 where
    v: "visit X oi i nb nw nf wg = Some (Inr (nb1, nw1, nf1, wg1))"
    and r: "visit_in_order X oi rest nb1 nw1 nf1 wg1 = Some (Inr (nb', nw', nf', wg'))"
    by (auto split: Option.bind_splits sum.splits)
  from visit_frame [OF v] Cons.IH [OF r] show ?case by simp
qed

lemma for_items_frame:
  assumes "for_items X oi 0 0 0 nf wg = Some (Inr (nb', nw', nf', wg'))"
  shows "m_totalWorkItems wg' = m_totalWorkItems wg \<and>
         m_workDim wg' = m_workDim wg \<and> m_groupID wg' = m_groupID wg \<and>
         m_globalSize wg' = m_globalSize wg \<and> m_groupSize wg' = m_groupSize wg \<and>
         nf \<le> nf' \<and> nb' + nw' + (nf' - nf) \<le> m_totalWorkItems wg"
  using visit_in_order_frame [OF assms [unfolded for_items_eq]]
  by (auto simp: m_totalWorkItems_def)

lemma clear_loop_eq:
  "i \<le> length ws \<Longrightarrow> clear_loop X i ws = take i ws @ map (clearBarrier X) (drop i ws)"
proof (induction X i ws rule: clear_loop.induct)
  case (1 X i ws)
  show ?case
  proof (cases "i < length ws")
    case True
    let ?ws = "ws[i := clearBarrier X (ws ! i)]"
    from True have "clear_loop X (i + 1) ?ws = take (i + 1) ?ws @ map (clearBarrier X) (drop (i + 1) ?ws)"
      using "1.IH" by simp
    also have "take (i + 1) ?ws = take i ws @ [clearBarrier X (ws ! i)]"
      using True by (simp add: take_Suc_conv_app_nth)
    also have "drop (i + 1) ?ws = drop (i + 1) ws" by simp
    finally have "clear_loop X (i + 1) ?ws = take i ws @ map (clearBarrier X) (ws ! i # drop (i + 1) ws)"
      by simp
    also have "ws ! i # drop (i + 1) ws = drop i ws"
      using True by (simp add: Cons_nth_drop_Suc)
    finally show ?thesis using True by (subst clear_loop.simps) simp
  next
    case False
    with "1.prems" show ?thesis by (subst clear_loop.simps) simp
  qed
qed

lemma clear_all_eq: "clear_all X wg = wg\<lparr>m_workItems := map (clearBarrier X) (m_workItems wg)\<rparr>"
  by (simp add: clear_all_def clear_loop_eq)

lemma total_clear_all [simp]: "m_totalWorkItems (clear_all X wg) = m_totalWorkItems wg"
  by (simp add: clear_all_eq m_totalWorkItems_def)

lemma total_say [simp]: "m_totalWorkItems (say txt wg) = m_totalWorkItems wg"
  by (simp add: say_def m_totalWorkItems_def)

lemma total_env_update [simp]: "m_totalWorkItems (wg\<lparr>env := s\<rparr>) = m_totalWorkItems wg"
  by (simp add: m_totalWorkItems_def)

lemma run_loop_pass:
  assumes "numFinished < m_totalWorkItems wg"
    and "for_items X oi 0 0 0 numFinished wg = Some (Inr (nb, nw, nf', wg1))"
  shows "run_loop X oi numFinished wg =
     (case barrier_check X oi nb wg1 of
        Return w \<Rightarrow> Some (Inr (Return w))
      | Next wg2 \<Rightarrow>
          (case wait_check X oi nw wg2 of
             Return w \<Rightarrow> Some (Inr (Return w))
           | Next wg3 \<Rightarrow> run_loop X oi nf' wg3))"
  using assms by (subst run_loop.simps) simp

text \<open>
  C1 (barrier all-or-nothing).  Take any pass of the loop of \<open>run\<close>: the loop is entered
  with \<open>numFinished\<close> below the number of work-items, and the pass over the work-items
  ends with the tallies \<open>numBarriers\<close>, \<open>numWaitEvents\<close>, \<open>numFinished'\<close> and the
  work-group \<open>wg1\<close>.  When \<open>numBarriers\<close> is the number of work-items, the loop goes on
  (its condition still holds) from the work-group in which \<open>clearBarrier\<close> has been
  applied to every work-item.  When \<open>numBarriers\<close> lies strictly between 0 and the
  number of work-items, the loop returns at once: the result is \<open>wg1\<close> with the line
  ``Barrier divergence detected.'' printed, so \<open>clearBarrier\<close> has been applied to no
  work-item; in the first pass this is the result of \<open>run\<close>.
\<close>

theorem barrier_all_or_nothing:
  assumes "numFinished < m_totalWorkItems wg"
    and "for_items X oi 0 0 0 numFinished wg =
           Some (Inr (numBarriers, numWaitEvents, numFinished', wg1))"
  shows "(numBarriers = m_totalWorkItems wg \<longrightarrow>
            run_loop X oi numFinished wg =
              run_loop X oi numFinished
                (wg1\<lparr>m_workItems := map (clearBarrier X) (m_workItems wg1),
                     env := (if oi then print_line ''All work-items reached barrier.'' (env wg1)
                             else env wg1)\<rparr>) \<and>
            numFinished < m_totalWorkItems wg1) \<and>
         (0 < numBarriers \<and> numBarriers < m_totalWorkItems wg \<longrightarrow>
            run_loop X oi numFinished wg =
              Some (Inr (Return (wg1\<lparr>env := print_line ''Barrier divergence detected.'' (env wg1)\<rparr>))) \<and>
            (numFinished = 0 \<longrightarrow>
               run X oi wg =
                 Some (Inr (wg1\<lparr>env := print_line ''Barrier divergence detected.'' (env wg1)\<rparr>))))"
proof (intro conjI impI)
  note fr = for_items_frame [OF assms(2)]
  note rl = run_loop_pass [OF assms]
  {
    assume all: "numBarriers = m_totalWorkItems wg"
    let ?wg2 = "wg1\<lparr>m_workItems := map (clearBarrier X) (m_workItems wg1),
             env := (if oi then print_line ''All work-items reached barrier.'' (env wg1) else env wg1)\<rparr>"
    from all fr assms(1) have z: "numWaitEvents = 0" "numFinished' = numFinished" by auto
    from all fr have b: "barrier_check X oi numBarriers wg1 = Next ?wg2"
      by (simp add: barrier_check_def say_def clear_all_eq)
    have w: "wait_check X oi 0 ?wg2 = Next ?wg2"
      using assms(1) fr by (auto simp: wait_check_def m_totalWorkItems_def)
    show "run_loop X oi numFinished wg = run_loop X oi numFinished ?wg2"
      unfolding rl b z by (simp add: w)
    show "numFinished < m_totalWorkItems wg1" using assms(1) fr by simp
  }
  {
    assume part: "0 < numBarriers \<and> numBarriers < m_totalWorkItems wg"
    with fr have b: "barrier_check X oi numBarriers wg1 = Return (say ''Barrier divergence detected.'' wg1)"
      by (simp add: barrier_check_def)
    show r: "run_loop X oi numFinished wg =
              Some (Inr (Return (wg1\<lparr>env := print_line ''Barrier divergence detected.'' (env wg1)\<rparr>)))"
      unfolding rl b by (simp add: say_def)
    {
      assume "numFinished = 0"
      with r show "run X oi wg =
                 Some (Inr (wg1\<lparr>env := print_line ''Barrier divergence detected.'' (env wg1)\<rparr>))"
        by (simp add: run_def)
    }
  }
qed


theorem barrier_all_or_nothing_witness:
  "run_loop scripted False 0 g_barrier =
     run_loop scripted False 0 (group_of [item_at READY [] 0, item_at READY [] 1]) \<and>
   run scripted False g_barrier_div =
     Some (Inr ((group_of [item_at BARRIER [] 0, item_at FINISHED [] 1, item_at BARRIER [] 2])
       \<lparr>env := (env0 [0, 0, 0, 0] [1, 2, 3, 4])
                 \<lparr>cout := [Str ''Barrier divergence detected.'', Endl]\<rparr>\<rparr>))"
proof -
  have n1: "(0::nat) < m_totalWorkItems g_barrier" by code_simp
  have p1: "for_items scripted False 0 0 0 0 g_barrier =
        Some (Inr (2, 0, 0, group_of [item_at BARRIER [] 0, item_at BARRIER [] 1]))"
    by code_simp
  have a1: "(2::nat) = m_totalWorkItems g_barrier" by code_simp
  from barrier_all_or_nothing [OF n1 p1, THEN conjunct1, THEN mp, OF a1]
  have 1: "run_loop scripted False 0 g_barrier =
     run_loop scripted False 0 (group_of [item_at READY [] 0, item_at READY [] 1])"
    by (simp add: group_of_def item_at_def scripted_def item_clearBarrier_def)
  have n2: "(0::nat) < m_totalWorkItems g_barrier_div" by code_simp
  have p2: "for_items scripted False 0 0 0 0 g_barrier_div =
        Some (Inr (2, 0, 1,
          group_of [item_at BARRIER [] 0, item_at FINISHED [] 1, item_at BARRIER [] 2]))"
    by code_simp
  have a2: "(0::nat) < 2 \<and> 2 < m_totalWorkItems g_barrier_div" by code_simp
  from barrier_all_or_nothing [OF n2 p2, THEN conjunct2, THEN mp, OF a2]
  have 2: "run scripted False g_barrier_div =
     Some (Inr ((group_of [item_at BARRIER [] 0, item_at FINISHED [] 1, item_at BARRIER [] 2])
       \<lparr>env := (env0 [0, 0, 0, 0] [1, 2, 3, 4])
                 \<lparr>cout := [Str ''Barrier divergence detected.'', Endl]\<rparr>\<rparr>))"
    by (simp add: group_of_def env0_def print_line_def)
  from 1 2 show ?thesis by simp
qed

text \<open>
  C2 (event-wait all-or-nothing), as amended.  In any pass as above: when
  \<open>numWaitEvents\<close> is the number of work-items, the group copy is performed on the
  environment (\<open>fulfil\<close>), \<open>clearBarrier\<close> is applied to every work-item and the loop
  goes on.  When \<open>numWaitEvents\<close> lies strictly between 0 and the number of work-items
  and no work-item reached a barrier in the pass, the loop returns at once with the line
  ``Wait for events divergence detected.'' printed and nothing else changed.  When some
  work-item reached a barrier in the same pass, the loop returns at once with the line
  ``Barrier divergence detected.'' instead, since the barrier check comes first.  In
  both cases there is no group copy and no release.
\<close>

theorem wait_event_all_or_nothing:
  assumes "numFinished < m_totalWorkItems wg"
    and "for_items X oi 0 0 0 numFinished wg =
           Some (Inr (numBarriers, numWaitEvents, numFinished', wg1))"
  shows "(numWaitEvents = m_totalWorkItems wg \<longrightarrow>
            run_loop X oi numFinished wg =
              run_loop X oi numFinished
                (wg1\<lparr>m_workItems := map (clearBarrier X) (m_workItems wg1),
                     env := (if oi
                             then print_line ''All work-items reached wait for events.''
                                    (fulfil X (env wg1))
                             else fulfil X (env wg1))\<rparr>) \<and>
            numFinished < m_totalWorkItems wg1) \<and>
         (0 < numWaitEvents \<and> numWaitEvents < m_totalWorkItems wg \<and> numBarriers = 0 \<longrightarrow>
            run_loop X oi numFinished wg =
              Some (Inr (Return
                (wg1\<lparr>env := print_line ''Wait for events divergence detected.'' (env wg1)\<rparr>))) \<and>
            (numFinished = 0 \<longrightarrow>
               run X oi wg =
                 Some (Inr
                   (wg1\<lparr>env := print_line ''Wait for events divergence detected.'' (env wg1)\<rparr>)))) \<and>
         (0 < numWaitEvents \<and> numWaitEvents < m_totalWorkItems wg \<and> 0 < numBarriers \<longrightarrow>
            run_loop X oi numFinished wg =
              Some (Inr (Return
                (wg1\<lparr>env := print_line ''Barrier divergence detected.'' (env wg1)\<rparr>))) \<and>
            (numFinished = 0 \<longrightarrow>
               run X oi wg =
                 Some (Inr (wg1\<lparr>env := print_line ''Barrier divergence detected.'' (env wg1)\<rparr>))))"
proof (intro conjI impI)
  note fr = for_items_frame [OF assms(2)]
  note rl = run_loop_pass [OF assms]
  {
    assume all: "numWaitEvents = m_totalWorkItems wg"
    let ?wg3 = "wg1\<lparr>m_workItems := map (clearBarrier X) (m_workItems wg1),
                     env := (if oi
                             then print_line ''All work-items reached wait for events.''
                                    (fulfil X (env wg1))
                             else fulfil X (env wg1))\<rparr>"
    from all fr assms(1) have z: "numBarriers = 0" "numFinished' = numFinished" by auto
    from assms(1) fr have b: "barrier_check X oi 0 wg1 = Next wg1"
      by (auto simp: barrier_check_def)
    from all fr have w: "wait_check X oi numWaitEvents wg1 = Next ?wg3"
      by (simp add: wait_check_def say_def clear_all_eq)
    show "run_loop X oi numFinished wg = run_loop X oi numFinished ?wg3"
      unfolding rl z by (simp add: b w)
    show "numFinished < m_totalWorkItems wg1" using assms(1) fr by simp
  }
  {
    assume part: "0 < numWaitEvents \<and> numWaitEvents < m_totalWorkItems wg \<and> numBarriers = 0"
    from part assms(1) fr have b: "barrier_check X oi numBarriers wg1 = Next wg1"
      by (auto simp: barrier_check_def)
    from part fr have w: "wait_check X oi numWaitEvents wg1 =
        Return (say ''Wait for events divergence detected.'' wg1)"
      by (simp add: wait_check_def)
    show r: "run_loop X oi numFinished wg =
              Some (Inr (Return
                (wg1\<lparr>env := print_line ''Wait for events divergence detected.'' (env wg1)\<rparr>)))"
      unfolding rl by (simp add: b w say_def)
    {
      assume "numFinished = 0"
      with r show "run X oi wg =
                 Some (Inr
                   (wg1\<lparr>env := print_line ''Wait for events divergence detected.'' (env wg1)\<rparr>))"
        by (simp add: run_def)
    }
  }
  {
    assume both: "0 < numWaitEvents \<and> numWaitEvents < m_totalWorkItems wg \<and> 0 < numBarriers"
    with fr have b: "barrier_check X oi numBarriers wg1 =
        Return (say ''Barrier divergence detected.'' wg1)"
      by (auto simp: barrier_check_def)
    show r: "run_loop X oi numFinished wg =
              Some (Inr (Return
                (wg1\<lparr>env := print_line ''Barrier divergence detected.'' (env wg1)\<rparr>)))"
      unfolding rl by (simp add: b say_def)
    {
      assume "numFinished = 0"
      with r show "run X oi wg =
                 Some (Inr (wg1\<lparr>env := print_line ''Barrier divergence detected.'' (env wg1)\<rparr>))"
        by (simp add: run_def)
    }
  }
qed

theorem wait_event_all_or_nothing_witness:
  "run_loop scripted False 0 g_wait =
     run_loop scripted False 0
       ((group_of [item_ev READY [] 0, item_ev READY [] 1])
          \<lparr>env := (env0 [0, 1, 2, 0] [1, 2, 3, 4])\<lparr>m_nextEvent := 2\<rparr>\<rparr>) \<and>
   printed (run scripted False g_wait_div) =
     Some [Str ''Wait for events divergence detected.'', Endl] \<and>
   printed (run scripted False g_mixed) = Some [Str ''Barrier divergence detected.'', Endl]"
proof -
  have n1: "(0::nat) < m_totalWorkItems g_wait" by code_simp
  have p1: "for_items scripted False 0 0 0 0 g_wait =
        Some (Inr (0, 2, 0,
          (group_of [item_ev WAIT_EVENT [] 0, item_ev WAIT_EVENT [] 1])\<lparr>env := env_pending\<rparr>))"
    by code_simp
  have a1: "(2::nat) = m_totalWorkItems g_wait" by code_simp
  from wait_event_all_or_nothing [OF n1 p1, THEN conjunct1, THEN mp, OF a1]
  have 1: "run_loop scripted False 0 g_wait =
     run_loop scripted False 0
       ((group_of [item_ev READY [] 0, item_ev READY [] 1])
          \<lparr>env := (env0 [0, 1, 2, 0] [1, 2, 3, 4])\<lparr>m_nextEvent := 2\<rparr>\<rparr>)"
    by (simp add: group_of_def item_ev_def scripted_def item_clearBarrier_def env_pending_def
        env0_def fulfil_def map_subscript_def map_erase_def copy2_def bytes_load_def
        bytes_store_def)
  have n2: "(0::nat) < m_totalWorkItems g_wait_div" by code_simp
  have p2: "for_items scripted False 0 0 0 0 g_wait_div =
        Some (Inr (0, 1, 1,
          (group_of [item_ev WAIT_EVENT [] 0, item_at FINISHED [] 1])\<lparr>env := env_pending\<rparr>))"
    by code_simp
  have a2: "(0::nat) < 1 \<and> 1 < m_totalWorkItems g_wait_div \<and> (0::nat) = 0" by code_simp
  from wait_event_all_or_nothing
         [OF n2 p2, THEN conjunct2, THEN conjunct1, THEN mp, OF a2, THEN conjunct2]
  have 2: "printed (run scripted False g_wait_div) =
     Some [Str ''Wait for events divergence detected.'', Endl]"
    by (simp add: printed_def env_pending_def print_line_def)
  have n3: "(0::nat) < m_totalWorkItems g_mixed" by code_simp
  have p3: "for_items scripted False 0 0 0 0 g_mixed =
        Some (Inr (1, 1, 1,
          (group_of [item_at BARRIER [] 0, item_ev WAIT_EVENT [] 1, item_at FINISHED [] 2])
            \<lparr>env := env_pending\<rparr>))"
    by code_simp
  have a3: "(0::nat) < 1 \<and> 1 < m_totalWorkItems g_mixed \<and> (0::nat) < 1" by code_simp
  from wait_event_all_or_nothing
         [OF n3 p3, THEN conjunct2, THEN conjunct2, THEN mp, OF a3, THEN conjunct2]
  have 3: "printed (run scripted False g_mixed) = Some [Str ''Barrier divergence detected.'', Endl]"
    by (simp add: printed_def env_pending_def print_line_def)
  from 1 2 3 show ?thesis by simp
qed

text \<open>
  The claim C2 as it was stated fails on the third work-group: one of three work-items
  awaits an event, and the run ends with the barrier message, not the event-wait one.
\<close>

theorem wait_divergence_counterexample:
  "tallies (for_items scripted False 0 0 0 0 g_mixed) = Some (1, 1, 1) \<and>
   m_totalWorkItems g_mixed = 3 \<and>
   printed (run scripted False g_mixed) = Some [Str ''Barrier divergence detected.'', Endl] \<and>
   printed (run scripted False g_mixed) \<noteq>
     Some [Str ''Wait for events divergence detected.'', Endl]"
  by code_simp

section \<open>Properties of the group copy\<close>

lemma map_of_map_erase: "map_of (map_erase k m) = (map_of m)(k := None)"
  by (induction m) (auto simp: map_erase_def fun_eq_iff)

lemma map_erase_map_put: "map_erase k (map_put k v m) = map_erase k m"
  by (induction m) (auto simp: map_erase_def)

lemma map_subscript_eq:
  "map_subscript e m = (descriptors_of m e, snd (map_subscript e m))"
  "map_erase e (snd (map_subscript e m)) = map_erase e m"
  by (auto simp: map_subscript_def descriptors_of_def map_erase_map_put split: option.splits)

lemma copy_list_eq:
  "copy_list X cs s =
     (case fold (execute_copy X) cs (m_localMemory s, m_globalMemory s) of
        (local, global) \<Rightarrow> s\<lparr>m_localMemory := local, m_globalMemory := global\<rparr>)"
proof (induction cs arbitrary: s)
  case Nil
  then show ?case by simp
next
  case (Cons c cs)
  show ?case
    by (simp add: Cons.IH execute_copy_def split: prod.splits)
qed

lemma descriptors_of_map_erase:
  "e' \<noteq> e \<Longrightarrow> descriptors_of (map_erase e m) e' = descriptors_of m e'"
  by (simp add: descriptors_of_def map_of_map_erase)

lemma group_copy_eq:
  "distinct es \<Longrightarrow>
   group_copy X es s =
     (case fold (execute_copy X) (concat (map (descriptors_of (m_pendingEvents s)) es))
             (m_localMemory s, m_globalMemory s) of
        (local, global) \<Rightarrow>
          s\<lparr>m_pendingEvents := filter (\<lambda>p. fst p \<notin> set es) (m_pendingEvents s),
            m_localMemory := local,
            m_globalMemory := global\<rparr>)"
proof (induction es arbitrary: s)
  case Nil
  then show ?case by simp
next
  case (Cons e es)
  obtain l g where lg: "fold (execute_copy X) (descriptors_of (m_pendingEvents s) e)
      (m_localMemory s, m_globalMemory s) = (l, g)" by (cases "fold (execute_copy X) (descriptors_of (m_pendingEvents s) e)
      (m_localMemory s, m_globalMemory s)") auto
  let ?s2 = "s\<lparr>m_pendingEvents := map_erase e (m_pendingEvents s),
                m_localMemory := l, m_globalMemory := g\<rparr>"
  obtain m where ms: "map_subscript e (m_pendingEvents s) = (descriptors_of (m_pendingEvents s) e, m)"
    and me: "map_erase e m = map_erase e (m_pendingEvents s)"
    using map_subscript_eq [of e "m_pendingEvents s"] by metis
  have cl: "copy_list X (descriptors_of (m_pendingEvents s) e) (s\<lparr>m_pendingEvents := m\<rparr>) =
        s\<lparr>m_pendingEvents := m, m_localMemory := l, m_globalMemory := g\<rparr>"
    by (simp add: copy_list_eq lg)
  have "(s\<lparr>m_pendingEvents := m, m_localMemory := l, m_globalMemory := g\<rparr>)
          \<lparr>m_pendingEvents := map_erase e m\<rparr> = ?s2"
    by (cases s) (simp add: me)
  then have step: "group_copy X (e # es) s = group_copy X es ?s2"
    by (simp add: ms cl)
  from Cons.prems have d: "distinct es" and ne: "\<forall>e' \<in> set es. e' \<noteq> e" by auto
  have m: "map (descriptors_of (map_erase e (m_pendingEvents s))) es =
           map (descriptors_of (m_pendingEvents s)) es"
    using ne by (auto simp: descriptors_of_map_erase)
  have f: "filter (\<lambda>p. fst p \<notin> set es) (map_erase e (m_pendingEvents s)) =
           filter (\<lambda>p. fst p \<notin> set (e # es)) (m_pendingEvents s)"
    by (auto simp: map_erase_def intro: filter_cong)
  show ?case
    unfolding step Cons.IH [OF d]
    by (simp add: m f lg split: prod.splits)
qed

lemma map_of_filter_notin:
  "map_of (filter (\<lambda>p. fst p \<notin> A) m) k = (if k \<in> A then None else map_of m k)"
  by (induction m) auto

text \<open>
  C4 (fulfilment).  \<open>m_waitEvents\<close> is a set, so its handles are distinct.  Then the
  group copy of the source is the fulfilment of the specification: the descriptors of
  the awaited handles are executed handle by handle in the order of \<open>m_waitEvents\<close>,
  under each handle in registration order; each descriptor loads \<open>size_c\<close> bytes from
  the source memory at \<open>src\<close> and stores them to the destination memory at \<open>dest\<close>,
  where \<open>GLOBAL_TO_LOCAL\<close> makes the local memory the destination and the global
  memory the source, and the other direction the reverse.  Afterwards \<open>m_waitEvents\<close>
  is empty, no awaited handle is pending any more, so that waiting for it again fails
  the assertion, and the handles that were not awaited keep their descriptors.
\<close>

theorem fulfilment_correct:
  assumes "distinct (m_waitEvents s)"
  shows "fulfil X s = spec_fulfil X s \<and>
         m_waitEvents (fulfil X s) = [] \<and>
         (\<forall>e \<in> set (m_waitEvents s).
            map_of (m_pendingEvents (fulfil X s)) e = None \<and>
            wait_event e (fulfil X s) = Inl AssertionFailed) \<and>
         (\<forall>e. e \<notin> set (m_waitEvents s) \<longrightarrow>
            map_of (m_pendingEvents (fulfil X s)) e = map_of (m_pendingEvents s) e)"
proof -
  have eq: "fulfil X s = spec_fulfil X s"
    by (simp add: fulfil_def spec_fulfil_def group_copy_eq [OF assms] split: prod.splits)
  have p: "m_pendingEvents (spec_fulfil X s) =
      filter (\<lambda>p. fst p \<notin> set (m_waitEvents s)) (m_pendingEvents s)"
    by (simp add: spec_fulfil_def split: prod.splits)
  have w: "m_waitEvents (spec_fulfil X s) = []"
    by (simp add: spec_fulfil_def split: prod.splits)
  show ?thesis
    unfolding eq by (simp add: p w wait_event_def map_of_filter_notin)
qed

theorem fulfilment_correct_witness:
  "fulfil scripted env_pending = (env0 [0, 1, 2, 0] [1, 2, 3, 4])\<lparr>m_nextEvent := 2\<rparr> \<and>
   wait_event 1 (fulfil scripted env_pending) = Inl AssertionFailed"
proof -
  have d: "distinct (m_waitEvents env_pending)" by (simp add: env_pending_def)
  have "spec_fulfil scripted env_pending = (env0 [0, 1, 2, 0] [1, 2, 3, 4])\<lparr>m_nextEvent := 2\<rparr>"
    by (simp add: spec_fulfil_def env_pending_def env0_def descriptors_of_def copy2_def
        execute_copy_def scripted_def bytes_load_def bytes_store_def)
  moreover have i: "1 \<in> set (m_waitEvents env_pending)" by (simp add: env_pending_def)
  moreover from fulfilment_correct [OF d, of scripted]
  have "fulfil scripted env_pending = spec_fulfil scripted env_pending"
    and "\<forall>e \<in> set (m_waitEvents env_pending).
           map_of (m_pendingEvents (fulfil scripted env_pending)) e = None \<and>
           wait_event e (fulfil scripted env_pending) = Inl AssertionFailed"
    by blast+
  ultimately show ?thesis by metis
qed

section \<open>Properties of the event handles\<close>

lemma copy_list_nextEvent [simp]: "m_nextEvent (copy_list X cs s) = m_nextEvent s"
  by (induction cs arbitrary: s) auto

lemma group_copy_nextEvent [simp]: "m_nextEvent (group_copy X es s) = m_nextEvent s"
  by (induction es arbitrary: s) (auto simp: Let_def split: prod.splits)

lemma fulfil_nextEvent [simp]: "m_nextEvent (fulfil X s) = m_nextEvent s"
  by (simp add: fulfil_def)

lemma wait_event_nextEvent: "wait_event e s = Inr s' \<Longrightarrow> m_nextEvent s' = m_nextEvent s"
  by (auto simp: wait_event_def split: if_splits)

lemma unat_of_nat64: "a < 2 ^ 64 \<Longrightarrow> unat (of_nat a :: 64 word) = a"
  by (rule of_nat_inverse [OF refl]) simp

lemma unat_succ64: "unat (x :: 64 word) + 1 < 2 ^ 64 \<Longrightarrow> unat (x + 1) = unat x + 1"
proof -
  assume a: "unat x + 1 < 2 ^ 64"
  have "unat x + unat (1 :: 64 word) < 2 ^ LENGTH(64)"
    using a by (simp only: unat_1 len_num0 len_bit0 len_num1 mult_1_right) simp
  then have "unat (x + 1) = unat x + unat (1 :: 64 word)"
    by (simp only: unat_add_lem)
  then show ?thesis by (simp only: unat_1)
qed

lemma apply_op_inv:
  assumes "unat (m_nextEvent s) = 1 + length log"
    and "map fst log = map of_nat [1..<1 + length log]"
    and "length log + 1 < 2 ^ 64 - 1"
    and "apply_op X op (log, s) = (log', s')"
  shows "unat (m_nextEvent s') = 1 + length log' \<and>
         map fst log' = map of_nat [1..<1 + length log'] \<and>
         length log' \<le> length log + 1"
proof (cases op)
  case (Request copy event)
  show ?thesis
  proof (cases "find_copy (m_pendingEvents s) copy")
    case None
    from assms(4) have l: "log' = log @ [(m_nextEvent s, copy)]"
      and s: "m_nextEvent s' = m_nextEvent s + 1"
      by (auto simp: Request None async_copy_fresh [OF None])
    have "unat (m_nextEvent s + 1) = unat (m_nextEvent s) + 1"
      using assms(1,3) by (intro unat_succ64) simp
    moreover have "of_nat (unat (m_nextEvent s)) = m_nextEvent s" by simp
    then have "m_nextEvent s = of_nat (1 + length log)"
      unfolding assms(1) by (rule sym)
    ultimately show ?thesis using assms(1,2) l s by simp
  next
    case (Some h)
    with assms show ?thesis by (auto simp: Request async_copy_found [OF Some])
  qed
next
  case (Await e)
  with assms show ?thesis by (auto split: sum.splits dest: wait_event_nextEvent)
next
  case Fulfil
  with assms show ?thesis by auto
qed

lemma lifetime_inv:
  assumes "unat (m_nextEvent s) = 1 + length log"
    and "map fst log = map of_nat [1..<1 + length log]"
    and "length log + length ops < 2 ^ 64 - 1"
    and "fold (apply_op X) ops (log, s) = (log', s')"
  shows "unat (m_nextEvent s') = 1 + length log' \<and>
         map fst log' = map of_nat [1..<1 + length log'] \<and>
         length log' \<le> length log + length ops"
  using assms
proof (induction ops arbitrary: log s)
  case Nil
  then show ?case by simp
next
  case (Cons op ops)
  obtain log1 s1 where a: "apply_op X op (log, s) = (log1, s1)"
    by (cases "apply_op X op (log, s)") auto
  from Cons.prems(3) have b: "length log + 1 < 2 ^ 64 - 1" by simp
  note i = apply_op_inv [OF Cons.prems(1,2) b a]
  from i Cons.prems(3) have c: "length log1 + length ops < 2 ^ 64 - 1" by simp
  from Cons.prems(4) a have "fold (apply_op X) ops (log1, s1) = (log', s')" by simp
  from Cons.IH [OF _ _ c this] i show ?case by simp
qed

lemma distinct_handles:
  assumes "map fst log = map of_nat [1..<1 + length log]" and "length log < 2 ^ 64 - 1"
  shows "distinct (map fst (log :: (64 word \<times> AsyncCopy) list))"
proof -
  have "inj_on (of_nat :: nat \<Rightarrow> 64 word) (set [1..<1 + length log])"
  proof (rule inj_onI)
    fix a b assume "a \<in> set [1..<1 + length log]" "b \<in> set [1..<1 + length log]"
      and e: "(of_nat a :: 64 word) = of_nat b"
    with assms(2) have "a < 2 ^ 64" "b < 2 ^ 64" by auto
    then have "unat (of_nat a :: 64 word) = a" "unat (of_nat b :: 64 word) = b"
      by (simp_all only: unat_of_nat64)
    with e show "a = b" by metis
  qed
  moreover have "distinct [1..<1 + length log]" by simp
  ultimately have "distinct (map (of_nat :: nat \<Rightarrow> 64 word) [1..<1 + length log])"
    by (simp only: distinct_map simp_thms)
  then show ?thesis by (simp only: assms(1))
qed

lemma set_map_put: "set (map_put k v m) \<subseteq> insert (k, v) (set m)"
  by (induction m) (auto split: if_splits)

lemma copy_list_pending [simp]: "m_pendingEvents (copy_list X cs s) = m_pendingEvents s"
  by (induction cs arbitrary: s) auto

lemma set_map_erase_subscript:
  fixes m :: "(64 word \<times> AsyncCopy list) list"
  shows "set (map_erase e (snd (map_subscript e m))) \<subseteq> set m"
  unfolding map_subscript_eq(2) by (auto simp: map_erase_def)

lemma group_copy_pending_subset:
  "set (m_pendingEvents (group_copy X es s)) \<subseteq> set (m_pendingEvents s)"
proof (induction es arbitrary: s)
  case Nil
  then show ?case by simp
next
  case (Cons e es)
  obtain copies m where ms: "map_subscript e (m_pendingEvents s) = (copies, m)"
    by (cases "map_subscript e (m_pendingEvents s)") auto
  let ?s2 = "(copy_list X copies (s\<lparr>m_pendingEvents := m\<rparr>))\<lparr>m_pendingEvents := map_erase e m\<rparr>"
  have "group_copy X (e # es) s = group_copy X es ?s2" by (simp add: ms)
  moreover have "set (m_pendingEvents (group_copy X es ?s2)) \<subseteq> set (m_pendingEvents ?s2)"
    by (rule Cons.IH)
  moreover have "set (m_pendingEvents ?s2) \<subseteq> set (m_pendingEvents s)"
    using set_map_erase_subscript [of e "m_pendingEvents s"] by (simp add: ms)
  ultimately show ?case by simp
qed

lemma registered_mono:
  assumes "registered log m" and "set m' \<subseteq> set m" and "set log \<subseteq> set log'"
  shows "registered log' m'"
  unfolding registered_def
proof (intro ballI)
  fix p assume a: "p \<in> set m'"
  obtain h cs where p: "p = (h, cs)" by (cases p)
  from a assms(2) have "(h, cs) \<in> set m" unfolding p by (rule subsetD [rotated])
  with assms(1) obtain c where "cs = [c]" "(h, c) \<in> set log"
    unfolding registered_def by blast
  with assms(3) show "case p of (h, cs) \<Rightarrow> \<exists>c. cs = [c] \<and> (h, c) \<in> set log'"
    unfolding p by auto
qed

lemma registered_put:
  assumes "registered log m"
  shows "registered (log @ [(h, c)]) (map_put h [c] m)"
  unfolding registered_def
proof (intro ballI)
  fix p assume a: "p \<in> set (map_put h [c] m)"
  obtain h' cs where p: "p = (h', cs)" by (cases p)
  from a set_map_put [of h "[c]" m] have "p = (h, [c]) \<or> p \<in> set m" by auto
  then show "case p of (h', cs) \<Rightarrow> \<exists>c'. cs = [c'] \<and> (h', c') \<in> set (log @ [(h, c)])"
  proof
    assume "p = (h, [c])"
    then show ?thesis by simp
  next
    assume "p \<in> set m"
    with assms p obtain c' where "cs = [c']" "(h', c') \<in> set log"
      unfolding registered_def by blast
    then show ?thesis unfolding p by simp
  qed
qed

lemma apply_op_registered:
  assumes "registered log (m_pendingEvents s)" and "apply_op X op (log, s) = (log', s')"
  shows "registered log' (m_pendingEvents s')"
proof (cases op)
  case (Request copy event)
  show ?thesis
  proof (cases "find_copy (m_pendingEvents s) copy")
    case None
    from assms(2) have l: "log' = log @ [(m_nextEvent s, copy)]"
      and s: "m_pendingEvents s' = map_put (m_nextEvent s) [copy] (m_pendingEvents s)"
      by (auto simp: Request None async_copy_fresh [OF None])
    show ?thesis unfolding s l by (rule registered_put [OF assms(1)])
  next
    case (Some h)
    with assms(2) have "log' = log" "s' = s"
      by (auto simp: Request async_copy_found [OF Some])
    with assms(1) show ?thesis by simp
  qed
next
  case (Await e)
  with assms(2) have "log' = log" "m_pendingEvents s' = m_pendingEvents s"
    by (auto simp: wait_event_def split: if_splits)
  with assms(1) show ?thesis by simp
next
  case Fulfil
  with assms(2) have l: "log' = log"
    and s: "m_pendingEvents s' = m_pendingEvents (group_copy X (m_waitEvents s) s)"
    by (auto simp: fulfil_def)
  show ?thesis unfolding l s
    by (rule registered_mono [OF assms(1) group_copy_pending_subset subset_refl])
qed

lemma lifetime_registered:
  assumes "registered log (m_pendingEvents s)" and "fold (apply_op X) ops (log, s) = (log', s')"
  shows "registered log' (m_pendingEvents s')"
  using assms
proof (induction ops arbitrary: log s)
  case Nil
  then show ?case by simp
next
  case (Cons op ops)
  obtain log1 s1 where a: "apply_op X op (log, s) = (log1, s1)"
    by (cases "apply_op X op (log, s)") auto
  from Cons.prems(2) a have "fold (apply_op X) ops (log1, s1) = (log', s')" by simp
  from Cons.IH [OF apply_op_registered [OF Cons.prems(1) a] this] show ?case .
qed

lemma WorkGroup_new_env:
  assumes "WorkGroup_new new localTemplate globalMem console workDim wgid globalSize groupSize = Inr wg"
  shows "env wg = \<lparr>m_pendingEvents = [], m_waitEvents = [], m_nextEvent = 1,
                    m_localMemory = localTemplate, m_globalMemory = globalMem, cout = console\<rparr>"
  using assms by (auto simp: WorkGroup_new_def split: prod.splits sum.splits if_splits)

section \<open>Properties of the construction and of the order of a pass\<close>

lemma index_less:
  fixes i j k :: nat
  assumes "i < G0" "j < G1" "k < G2"
  shows "i + (j + k * G1) * G0 < G0 * G1 * G2"
proof -
  have "j + k * G1 < G1 * G2"
  proof -
    have "j + k * G1 < G1 + k * G1" using assms(2) by simp
    also have "\<dots> = G1 * (k + 1)" by (simp add: algebra_simps)
    also have "\<dots> \<le> G1 * G2" using assms(3) by (intro mult_le_mono2) simp
    finally show ?thesis .
  qed
  then have "j + k * G1 + 1 \<le> G1 * G2" by simp
  then have "(j + k * G1 + 1) * G0 \<le> G1 * G2 * G0" by (rule mult_le_mono1)
  moreover have "i + (j + k * G1) * G0 < (j + k * G1 + 1) * G0"
    using assms(1) by (simp add: algebra_simps)
  ultimately show ?thesis by (simp add: algebra_simps)
qed

lemma index_inj:
  fixes i j k i' j' k' :: nat
  assumes "i < G0" "j < G1" "i' < G0" "j' < G1"
    and "i + (j + k * G1) * G0 = i' + (j' + k' * G1) * G0"
  shows "i = i' \<and> j = j' \<and> k = k'"
proof -
  from assms(1,3,5) have "(i + (j + k * G1) * G0) mod G0 = (i' + (j' + k' * G1) * G0) mod G0"
    by simp
  with assms(1,3) have i: "i = i'" by simp
  from assms(5) i have "(j + k * G1) * G0 = (j' + k' * G1) * G0" by simp
  with assms(1) have e: "j + k * G1 = j' + k' * G1" by simp
  then have "(j + k * G1) mod G1 = (j' + k' * G1) mod G1" by simp
  with assms(2,4) have j: "j = j'" by simp
  with e assms(2) have "k = k'" by simp
  with i j show ?thesis by simp
qed

lemma index_surj:
  fixes n :: nat
  assumes "n < G0 * G1 * G2"
  shows "\<exists>i j k. i < G0 \<and> j < G1 \<and> k < G2 \<and> n = i + (j + k * G1) * G0"
proof -
  from assms have p: "0 < G0" "0 < G1" by (auto intro: gr0I)
  let ?i = "n mod G0" and ?j = "(n div G0) mod G1" and ?k = "n div G0 div G1"
  have "?i < G0" "?j < G1" using p by simp_all
  moreover have "?k < G2"
  proof -
    from assms have "n < G0 * (G1 * G2)" by (simp add: mult.assoc)
    then have "n div G0 < G1 * G2" using p by (simp add: less_mult_imp_div_less mult.commute)
    then show ?thesis using p by (simp add: less_mult_imp_div_less mult.commute)
  qed
  moreover have "n = ?i + (?j + ?k * G1) * G0"
    by (simp add: mult.commute)
  ultimately show ?thesis by blast
qed

lemma word_index:
  fixes gs0 gs1 gs2 :: "64 word"
  assumes "unat gs0 * unat gs1 * unat gs2 < 2 ^ 64"
    and "i < unat gs0" "j < unat gs1" "k < unat gs2"
  shows "unat (of_nat i + (of_nat j + of_nat k * gs1) * gs0 :: 64 word) =
         i + (j + k * unat gs1) * unat gs0"
proof -
  have "(of_nat i + (of_nat j + of_nat k * gs1) * gs0 :: 64 word) =
        of_nat i + (of_nat j + of_nat k * of_nat (unat gs1)) * of_nat (unat gs0)"
    by simp
  also have "\<dots> = of_nat (i + (j + k * unat gs1) * unat gs0)"
    by (simp only: of_nat_add of_nat_mult)
  finally have "unat (of_nat i + (of_nat j + of_nat k * gs1) * gs0 :: 64 word) =
        unat (of_nat (i + (j + k * unat gs1) * unat gs0) :: 64 word)" by simp
  also have "\<dots> = i + (j + k * unat gs1) * unat gs0"
    using index_less [OF assms(2-4)] assms(1) by (intro unat_of_nat64) simp
  finally show ?thesis .
qed

lemma set_coords:
  "set (coords gs0 gs1 gs2) = {(k, j, i). i < unat gs0 \<and> j < unat gs1 \<and> k < unat gs2}"
  by (auto simp: coords_def)

lemma distinct_coords: "distinct (coords gs0 gs1 gs2)"
  by (simp add: coords_def distinct_product)

lemma fold_product: "fold f (List.product xs ys) = fold (\<lambda>x. fold (\<lambda>y. f (x, y)) ys) xs"
  by (induction xs) (simp_all add: fold_map comp_def)

lemma init_items_fold:
  "init_items new gs0 gs1 gs2 =
     fold (\<lambda>(k, j, i). put_item new gs0 gs1 (of_nat k) (of_nat j) (of_nat i))
       (coords gs0 gs1 gs2) (Inr (replicate (unat (gs0 * gs1 * gs2)) None))"
  by (simp add: init_items_def coords_def upto_word_def fold_product fold_map comp_def)

lemma fold_put_item:
  fixes gs0 gs1 :: "64 word"
  defines "idx \<equiv> \<lambda>(k, j, i). unat (of_nat i + (of_nat j + of_nat k * gs1) * gs0 :: 64 word)"
  assumes "\<forall>c \<in> set cs. idx c < length arr" and "inj_on idx (set cs)" and "distinct cs"
  shows "\<exists>arr'. fold (\<lambda>(k, j, i). put_item new gs0 gs1 (of_nat k) (of_nat j) (of_nat i)) cs (Inr arr)
             = Inr arr' \<and>
           length arr' = length arr \<and>
           (\<forall>(k, j, i) \<in> set cs. arr' ! idx (k, j, i) = Some (new (of_nat i) (of_nat j) (of_nat k))) \<and>
           (\<forall>n. n \<notin> idx ` set cs \<longrightarrow> arr' ! n = arr ! n)"
  using assms(2-)
proof (induction cs arbitrary: arr)
  case Nil
  then show ?case by simp
next
  case (Cons c cs)
  obtain k j i where c: "c = (k, j, i)" by (cases c) auto
  let ?a = "arr[idx c := Some (new (of_nat i) (of_nat j) (of_nat k))]"
  let ?f = "\<lambda>(k, j, i). put_item new gs0 gs1 (of_nat k) (of_nat j) (of_nat i)"
  from Cons.prems(1) have lt: "idx c < length arr" by simp
  then have st: "?f c (Inr arr) = Inr ?a"
    by (simp add: c put_item_def idx_def)
  have 1: "\<forall>c \<in> set cs. idx c < length ?a" using Cons.prems(1) by simp
  have 2: "inj_on idx (set cs)" using Cons.prems(2) by (simp add: inj_on_def)
  have 3: "distinct cs" using Cons.prems(3) by simp
  from Cons.IH [OF 1 2 3] obtain arr' where
    f: "fold ?f cs (Inr ?a) = Inr arr'" and l: "length arr' = length ?a"
    and h: "\<forall>(k, j, i) \<in> set cs. arr' ! idx (k, j, i) = Some (new (of_nat i) (of_nat j) (of_nat k))"
    and u: "\<forall>n. n \<notin> idx ` set cs \<longrightarrow> arr' ! n = ?a ! n"
    by blast
  have notin: "idx c \<notin> idx ` set cs"
    using Cons.prems(2,3) by (auto simp: inj_on_def)
  with u lt have here: "arr' ! idx c = Some (new (of_nat i) (of_nat j) (of_nat k))" by simp
  have "fold ?f (c # cs) (Inr arr) = Inr arr'" using st f by simp
  moreover have "length arr' = length arr" using l by simp
  moreover have "\<forall>(k, j, i) \<in> set (c # cs).
      arr' ! idx (k, j, i) = Some (new (of_nat i) (of_nat j) (of_nat k))"
    using h here c by auto
  moreover have "\<forall>n. n \<notin> idx ` set (c # cs) \<longrightarrow> arr' ! n = arr ! n"
    using u by auto
  ultimately show ?case by blast
qed

lemma unat_mult64:
  "unat (a :: 64 word) * unat b < 2 ^ 64 \<Longrightarrow> unat (a * b) = unat a * unat b"
  using unat_mult_lem [of a b] by simp

lemma init_items_ok:
  fixes gs0 gs1 gs2 :: "64 word"
  assumes "unat gs0 * unat gs1 * unat gs2 < 2 ^ 64"
  shows "\<exists>arr. init_items new gs0 gs1 gs2 = Inr arr \<and>
           length arr = unat gs0 * unat gs1 * unat gs2 \<and>
           (\<forall>i j k. i < unat gs0 \<and> j < unat gs1 \<and> k < unat gs2 \<longrightarrow>
              arr ! (i + (j + k * unat gs1) * unat gs0) =
                Some (new (of_nat i) (of_nat j) (of_nat k))) \<and>
           list_all (\<lambda>p. p \<noteq> None) arr"
proof -
  let ?idx = "\<lambda>(k, j, i). unat (of_nat i + (of_nat j + of_nat k * gs1) * gs0 :: 64 word)"
  let ?n = "unat gs0 * unat gs1 * unat gs2"
  have total: "unat (gs0 * gs1 * gs2) = ?n"
  proof (cases "unat gs2 = 0")
    case True
    then have "gs2 = 0" by (simp add: unat_eq_0)
    with True show ?thesis by simp
  next
    case False
    then have "unat gs0 * unat gs1 * 1 \<le> ?n" by (intro mult_le_mono2) simp
    then have "unat gs0 * unat gs1 \<le> ?n" by simp
    from this assms have "unat gs0 * unat gs1 < 2 ^ 64" by (rule le_less_trans)
    then have "unat (gs0 * gs1) = unat gs0 * unat gs1" by (rule unat_mult64)
    with assms show ?thesis by (simp add: unat_mult64)
  qed
  have ix: "unat (of_nat i + (of_nat j + of_nat k * gs1) * gs0 :: 64 word) =
        i + (j + k * unat gs1) * unat gs0"
    if "i < unat gs0" "j < unat gs1" "k < unat gs2" for i j k
    using word_index [OF assms that] .
  have 1: "\<forall>c \<in> set (coords gs0 gs1 gs2). ?idx c < length (replicate ?n (None :: 'a option))"
    using index_less by (auto simp: set_coords ix)
  have 2: "inj_on ?idx (set (coords gs0 gs1 gs2))"
  proof (rule inj_onI)
    fix c d assume c: "c \<in> set (coords gs0 gs1 gs2)" and d: "d \<in> set (coords gs0 gs1 gs2)"
      and e: "?idx c = ?idx d"
    obtain k j i where cc: "c = (k, j, i)" by (cases c) auto
    obtain k' j' i' where dd: "d = (k', j', i')" by (cases d) auto
    from c d cc dd have r: "i < unat gs0" "j < unat gs1" "k < unat gs2"
      "i' < unat gs0" "j' < unat gs1" "k' < unat gs2" by (auto simp: set_coords)
    from e have "i + (j + k * unat gs1) * unat gs0 = i' + (j' + k' * unat gs1) * unat gs0"
      unfolding cc dd using ix [OF r(1-3)] ix [OF r(4-6)] by simp
    from index_inj [OF r(1,2,4,5) this] show "c = d" by (simp add: cc dd)
  qed
  from fold_put_item [OF 1 2 distinct_coords, of new] obtain arr where
    f: "init_items new gs0 gs1 gs2 = Inr arr" and l: "length arr = ?n"
    and h: "\<forall>(k, j, i) \<in> set (coords gs0 gs1 gs2).
              arr ! ?idx (k, j, i) = Some (new (of_nat i) (of_nat j) (of_nat k))"
    unfolding init_items_fold total by auto
  have g: "arr ! (i + (j + k * unat gs1) * unat gs0) = Some (new (of_nat i) (of_nat j) (of_nat k))"
    if "i < unat gs0" "j < unat gs1" "k < unat gs2" for i j k
  proof -
    from that have "(k, j, i) \<in> set (coords gs0 gs1 gs2)" by (simp add: set_coords)
    with h have "arr ! ?idx (k, j, i) = Some (new (of_nat i) (of_nat j) (of_nat k))" by blast
    then show ?thesis using ix [OF that] by simp
  qed
  have "list_all (\<lambda>p. p \<noteq> None) arr"
    unfolding list_all_length
  proof (intro allI impI)
    fix n assume "n < length arr"
    with l have "n < ?n" by simp
    from index_surj [OF this] obtain i j k where
      "i < unat gs0" "j < unat gs1" "k < unat gs2" "n = i + (j + k * unat gs1) * unat gs0"
      by blast
    with g show "arr ! n \<noteq> None" by simp
  qed
  with f l g show ?thesis by blast
qed

lemma WorkGroup_new_ok:
  fixes gs0 gs1 gs2 :: "64 word"
  assumes "unat gs0 * unat gs1 * unat gs2 < 2 ^ 64"
  shows "\<exists>wg. WorkGroup_new new localTemplate globalMem console workDim wgid globalSize
                 (gs0, gs1, gs2) = Inr wg \<and>
           m_totalWorkItems wg = unat gs0 * unat gs1 * unat gs2 \<and>
           (\<forall>i j k. i < unat gs0 \<and> j < unat gs1 \<and> k < unat gs2 \<longrightarrow>
              m_workItems wg ! (i + (j + k * unat gs1) * unat gs0) =
                new (of_nat i) (of_nat j) (of_nat k))"
proof -
  from init_items_ok [OF assms, of new] obtain arr where
    f: "init_items new gs0 gs1 gs2 = Inr arr"
    and l: "length arr = unat gs0 * unat gs1 * unat gs2"
    and g: "\<forall>i j k. i < unat gs0 \<and> j < unat gs1 \<and> k < unat gs2 \<longrightarrow>
              arr ! (i + (j + k * unat gs1) * unat gs0) =
                Some (new (of_nat i) (of_nat j) (of_nat k))"
    and a: "list_all (\<lambda>p. p \<noteq> None) arr"
    by blast
  have "map the arr ! (i + (j + k * unat gs1) * unat gs0) = new (of_nat i) (of_nat j) (of_nat k)"
    if "i < unat gs0 \<and> j < unat gs1 \<and> k < unat gs2" for i j k
  proof -
    from that have "i + (j + k * unat gs1) * unat gs0 < length arr"
      unfolding l by (intro index_less) simp_all
    with g that show ?thesis by simp
  qed
  with f l a show ?thesis
    by (simp add: WorkGroup_new_def m_totalWorkItems_def)
qed

lemma step_loop_step_n:
  assumes "step_loop X oi st w s = Some y"
  shows "\<forall>r. y = Inr r \<longrightarrow>
           (\<exists>n. step_n X oi n (st, w, s) = Inr r \<and> fst r \<noteq> READY \<and>
                (\<forall>m<n. \<exists>c. step_n X oi m (st, w, s) = Inr c \<and> fst c = READY))"
proof (induction X oi st w s y rule: step_loop.raw_induct)
  case (1 step_loop X oi st w s y)
  show ?case
  proof (cases "st = READY")
    case False
    with "1.hyps" have "y = Inr (st, w, s)" by simp
    with False have "step_n X oi 0 (st, w, s) = y \<and> fst (st, w, s) \<noteq> READY" by simp
    with \<open>y = Inr (st, w, s)\<close> show ?thesis by (intro allI impI exI [of _ 0]) auto
  next
    case True
    show ?thesis
    proof (intro allI impI)
      fix r assume y: "y = Inr r"
      from "1.hyps" True y obtain st1 w1 s1 where
        st: "step X oi w s = Inr (st1, w1, s1)" and lp: "step_loop X oi st1 w1 s1 = Some (Inr r)"
        by (auto split: sum.splits)
      from "1.IH" [OF lp] obtain n where
        n: "step_n X oi n (st1, w1, s1) = Inr r" "fst r \<noteq> READY"
        "\<forall>m<n. \<exists>c. step_n X oi m (st1, w1, s1) = Inr c \<and> fst c = READY"
        by blast
      have "step_n X oi (Suc n) (st, w, s) = Inr r" using st n(1) by simp
      moreover have "\<exists>c. step_n X oi m (st, w, s) = Inr c \<and> fst c = READY" if "m < Suc n" for m
      proof (cases m)
        case 0
        with True show ?thesis by simp
      next
        case (Suc m')
        with that n(3) st show ?thesis by simp
      qed
      ultimately show "\<exists>n. step_n X oi n (st, w, s) = Inr r \<and> fst r \<noteq> READY \<and>
                (\<forall>m<n. \<exists>c. step_n X oi m (st, w, s) = Inr c \<and> fst c = READY)"
        using n(2) by blast
    qed
  qed
qed fact

lemma visit_skip:
  "getState X (m_workItems wg ! i) \<noteq> READY \<Longrightarrow>
   visit X oi i nb nw nf wg = Some (Inr (nb, nw, nf, wg))"
  by (simp add: visit_def)

lemma visit_ready:
  assumes "getState X (m_workItems wg ! i) = READY"
    and "visit X oi i nb nw nf wg = Some (Inr (nb', nw', nf', wg'))"
  shows "\<exists>st w' s'.
           step_loop X oi READY (m_workItems wg ! i)
             (if oi then print_header X (m_workItems wg ! i) (env wg) else env wg) =
             Some (Inr (st, w', s')) \<and>
           m_workItems wg' = (m_workItems wg)[i := w'] \<and>
           update_counters X oi st nb nw nf s' = (nb', nw', nf', env wg')"
  using assms
  by (auto simp: visit_def Let_def split: Option.bind_splits sum.splits prod.splits)

lemma step_n_step_loop:
  assumes "step_n X oi n (st, w, s) = Inr r" and "fst r \<noteq> READY"
    and "\<forall>m<n. \<exists>c. step_n X oi m (st, w, s) = Inr c \<and> fst c = READY"
  shows "step_loop X oi st w s = Some (Inr r)"
  using assms
proof (induction n arbitrary: st w s)
  case 0
  then have "r = (st, w, s)" "st \<noteq> READY" by auto
  then show ?case by (subst step_loop.simps) simp
next
  case (Suc n)
  from Suc.prems(3) [rule_format, of 0] have rd: "st = READY" by simp
  from Suc.prems(1) obtain st1 w1 s1 where
    st: "step X oi w s = Inr (st1, w1, s1)" and n: "step_n X oi n (st1, w1, s1) = Inr r"
    by (auto split: sum.splits)
  have "\<exists>c. step_n X oi m (st1, w1, s1) = Inr c \<and> fst c = READY" if "m < n" for m
    using Suc.prems(3) [rule_format, of "Suc m"] that st by simp
  then have "step_loop X oi st1 w1 s1 = Some (Inr r)"
    by (intro Suc.IH [OF n Suc.prems(2)]) blast
  with rd st show ?case by (subst step_loop.simps) simp
qed

lemma step_n_step_loop_error:
  assumes "step_n X oi n (st, w, s) = Inl e"
    and "\<forall>m<n. \<exists>c. step_n X oi m (st, w, s) = Inr c \<and> fst c = READY"
  shows "step_loop X oi st w s = Some (Inl e)"
  using assms
proof (induction n arbitrary: st w s)
  case 0
  then show ?case by simp
next
  case (Suc n)
  from Suc.prems(2) [rule_format, of 0] have rd: "st = READY" by simp
  show ?case
  proof (cases "step X oi w s")
    case (Inl e')
    with Suc.prems(1) have "e' = e" by simp
    with rd Inl show ?thesis by (subst step_loop.simps) simp
  next
    case (Inr c)
    obtain st1 w1 s1 where c: "c = (st1, w1, s1)" by (cases c) auto
    from Suc.prems(1) Inr c have n: "step_n X oi n (st1, w1, s1) = Inl e" by simp
    have "\<exists>c. step_n X oi m (st1, w1, s1) = Inr c \<and> fst c = READY" if "m < n" for m
      using Suc.prems(2) [rule_format, of "Suc m"] that Inr c by simp
    then have "step_loop X oi st1 w1 s1 = Some (Inl e)"
      by (intro Suc.IH [OF n]) blast
    with rd Inr c show ?thesis by (subst step_loop.simps) simp
  qed
qed

lemma visit_step_loop:
  assumes "getState X (m_workItems wg ! i) = READY"
    and "step_loop X oi READY (m_workItems wg ! i)
           (if oi then print_header X (m_workItems wg ! i) (env wg) else env wg) = Some r"
  shows "visit X oi i nb nw nf wg =
     (case r of
        Inl e \<Rightarrow> Some (Inl e)
      | Inr (st, workItem', s') \<Rightarrow>
          (case update_counters X oi st nb nw nf s' of
             (nb', nw', nf', s'') \<Rightarrow>
               Some (Inr (nb', nw', nf',
                 wg\<lparr>m_workItems := (m_workItems wg)[i := workItem'], env := s''\<rparr>))))"
  using assms by (cases oi; cases r) (simp_all add: visit_def split: prod.splits)

lemma upto_word_Cons:
  assumes "n \<noteq> 0"
  shows "upto_word n = 0 # map of_nat [1..<unat n]"
proof -
  from assms have "0 < unat n" by (simp add: unat_gt_0)
  from upt_conv_Cons [OF this] show ?thesis by (simp add: upto_word_def)
qed

lemma put_item_Inl [simp]: "put_item new gs0 gs1 k j i (Inl e) = Inl e"
  by (simp add: put_item_def)

lemma fold_Inl:
  assumes "\<And>x. f x (Inl e) = Inl e"
  shows "fold f xs (Inl e) = Inl e"
  by (induction xs) (simp_all add: assms)

lemma fold_first_Inl:
  assumes "f x a = Inl e" and "\<And>y. f y (Inl e) = Inl e"
  shows "fold f (x # xs) a = Inl e"
  using assms(1) by (simp add: fold_Inl [of f, OF assms(2)])

lemma init_items_wrapped:
  assumes "gs0 \<noteq> 0" and "gs1 \<noteq> 0" and "gs2 \<noteq> 0" and "gs0 * gs1 * gs2 = 0"
  shows "init_items new gs0 gs1 gs2 = Inl OutOfBounds"
proof -
  let ?fi = "\<lambda>k j. fold (\<lambda>i. put_item new gs0 gs1 k j i)"
  let ?fj = "\<lambda>k. fold (\<lambda>j. ?fi k j (upto_word gs0))"
  have i: "?fi k j is (Inl e) = Inl e" for k j "is" e
    by (rule fold_Inl) simp
  have j: "?fj k js (Inl e) = Inl e" for k js e
    by (rule fold_Inl) (rule i)
  have i0: "?fi 0 0 (0 # is) (Inr []) = Inl OutOfBounds" for "is"
    by (rule fold_first_Inl) (simp_all add: put_item_def)
  have i1: "?fi 0 0 (upto_word gs0) (Inr []) = Inl OutOfBounds"
    by (simp only: upto_word_Cons [OF assms(1)] i0)
  have j0: "?fj 0 (0 # js) (Inr []) = Inl OutOfBounds" for js
    by (rule fold_first_Inl) (rule i1, rule i)
  have j1: "?fj 0 (upto_word gs1) (Inr []) = Inl OutOfBounds"
    by (simp only: upto_word_Cons [OF assms(2)] j0)
  have k0: "fold (\<lambda>k. ?fj k (upto_word gs1)) (0 # ks) (Inr []) = Inl OutOfBounds" for ks
    by (rule fold_first_Inl) (rule j1, rule j)
  have "init_items new gs0 gs1 gs2 =
      fold (\<lambda>k. ?fj k (upto_word gs1)) (upto_word gs2) (Inr [])"
    by (simp add: init_items_def assms(4))
  also have "\<dots> = Inl OutOfBounds"
    by (simp only: upto_word_Cons [OF assms(3)] k0)
  finally show ?thesis .
qed

text \<open>
  C6 (linear indexing), as amended.  When the product of the three group sizes fits a
  \<open>size_t\<close>, the constructor succeeds, the array has that many work-items, the work-item
  made for the coordinate \<open>(i, j, k)\<close> is at index
  \<open>i + (j + k * groupSize[1]) * groupSize[0]\<close>, and every index of the array belongs to
  exactly one coordinate.  A pass is the visit of the indices \<open>0, 1, \<dots>\<close> in ascending
  order.  The visit of a work-item that is not \<open>READY\<close> changes neither the tallies nor
  the work-group.  The visit of a \<open>READY\<close> work-item that returns has stepped it some
  \<open>n > 0\<close> times: the first \<open>n - 1\<close> steps report \<open>READY\<close>, the last one reports
  another state, the stepped work-item is stored back at its index, and the tallies are
  updated with the state reported last.  Conversely, when \<open>n\<close> steps of a \<open>READY\<close>
  work-item are the first to report a state other than \<open>READY\<close>, the visit returns
  exactly that: the work-item after these \<open>n\<close> steps stored back at its index, and the
  tallies updated with the state reported last.  When the \<open>n\<close>-th step is the first to
  fail, the visit fails with the same error.
\<close>

theorem linear_indexing:
  fixes gs0 gs1 gs2 :: "64 word"
  shows
  "(unat gs0 * unat gs1 * unat gs2 < 2 ^ 64 \<longrightarrow>
      (\<exists>g. WorkGroup_new new localTemplate globalMem console workDim wgid globalSize
                 (gs0, gs1, gs2) = Inr g \<and>
           m_totalWorkItems g = unat gs0 * unat gs1 * unat gs2 \<and>
           (\<forall>i j k. i < unat gs0 \<and> j < unat gs1 \<and> k < unat gs2 \<longrightarrow>
              i + (j + k * unat gs1) * unat gs0 < m_totalWorkItems g \<and>
              m_workItems g ! (i + (j + k * unat gs1) * unat gs0) =
                new (of_nat i) (of_nat j) (of_nat k)) \<and>
           (\<forall>n < m_totalWorkItems g. \<exists>i j k. i < unat gs0 \<and> j < unat gs1 \<and> k < unat gs2 \<and>
              n = i + (j + k * unat gs1) * unat gs0 \<and>
              (\<forall>i' j' k'. i' < unat gs0 \<and> j' < unat gs1 \<and> k' < unat gs2 \<and>
                 n = i' + (j' + k' * unat gs1) * unat gs0 \<longrightarrow> i' = i \<and> j' = j \<and> k' = k)))) \<and>
   for_items X oi 0 nb nw nf wg = visit_in_order X oi [0..<m_totalWorkItems wg] nb nw nf wg \<and>
   sorted_wrt (<) [0..<m_totalWorkItems wg] \<and>
   (getState X (m_workItems wg ! x) \<noteq> READY \<longrightarrow>
      visit X oi x nb nw nf wg = Some (Inr (nb, nw, nf, wg))) \<and>
   (getState X (m_workItems wg ! x) = READY \<and>
    visit X oi x nb nw nf wg = Some (Inr (nb', nw', nf', wg')) \<longrightarrow>
      (\<exists>n st w' s'. 0 < n \<and>
         step_n X oi n
           (READY, m_workItems wg ! x,
            if oi then print_header X (m_workItems wg ! x) (env wg) else env wg) =
           Inr (st, w', s') \<and>
         st \<noteq> READY \<and>
         (\<forall>m<n. \<exists>c. step_n X oi m
            (READY, m_workItems wg ! x,
             if oi then print_header X (m_workItems wg ! x) (env wg) else env wg) = Inr c \<and>
            fst c = READY) \<and>
         m_workItems wg' = (m_workItems wg)[x := w'] \<and>
         update_counters X oi st nb nw nf s' = (nb', nw', nf', env wg'))) \<and>
   (getState X (m_workItems wg ! x) = READY \<and>
    step_n X oi n1
      (READY, m_workItems wg ! x,
       if oi then print_header X (m_workItems wg ! x) (env wg) else env wg) =
      Inr (st1, w1, s1) \<and>
    st1 \<noteq> READY \<and>
    (\<forall>m<n1. \<exists>c. step_n X oi m
       (READY, m_workItems wg ! x,
        if oi then print_header X (m_workItems wg ! x) (env wg) else env wg) = Inr c \<and>
       fst c = READY) \<longrightarrow>
      visit X oi x nb nw nf wg =
        Some (Inr (case update_counters X oi st1 nb nw nf s1 of
                     (nb1, nw1, nf1, s2) \<Rightarrow>
                       (nb1, nw1, nf1, wg\<lparr>m_workItems := (m_workItems wg)[x := w1], env := s2\<rparr>)))) \<and>
   (getState X (m_workItems wg ! x) = READY \<and>
    step_n X oi n2
      (READY, m_workItems wg ! x,
       if oi then print_header X (m_workItems wg ! x) (env wg) else env wg) = Inl e \<and>
    (\<forall>m<n2. \<exists>c. step_n X oi m
       (READY, m_workItems wg ! x,
        if oi then print_header X (m_workItems wg ! x) (env wg) else env wg) = Inr c \<and>
       fst c = READY) \<longrightarrow>
      visit X oi x nb nw nf wg = Some (Inl e))"
proof (intro conjI impI)
  assume b: "unat gs0 * unat gs1 * unat gs2 < 2 ^ 64"
  from WorkGroup_new_ok [OF b, of new localTemplate globalMem console workDim wgid globalSize]
  obtain g where g: "WorkGroup_new new localTemplate globalMem console workDim wgid globalSize
                 (gs0, gs1, gs2) = Inr g"
    "m_totalWorkItems g = unat gs0 * unat gs1 * unat gs2"
    "\<forall>i j k. i < unat gs0 \<and> j < unat gs1 \<and> k < unat gs2 \<longrightarrow>
              m_workItems g ! (i + (j + k * unat gs1) * unat gs0) =
                new (of_nat i) (of_nat j) (of_nat k)"
    by blast
  have "\<exists>i j k. i < unat gs0 \<and> j < unat gs1 \<and> k < unat gs2 \<and>
              n = i + (j + k * unat gs1) * unat gs0 \<and>
              (\<forall>i' j' k'. i' < unat gs0 \<and> j' < unat gs1 \<and> k' < unat gs2 \<and>
                 n = i' + (j' + k' * unat gs1) * unat gs0 \<longrightarrow> i' = i \<and> j' = j \<and> k' = k)"
    if "n < m_totalWorkItems g" for n
  proof -
    from that g(2) have "n < unat gs0 * unat gs1 * unat gs2" by simp
    from index_surj [OF this] obtain i j k where
      r: "i < unat gs0" "j < unat gs1" "k < unat gs2" "n = i + (j + k * unat gs1) * unat gs0"
      by blast
    have "i' = i \<and> j' = j \<and> k' = k"
      if "i' < unat gs0 \<and> j' < unat gs1 \<and> k' < unat gs2 \<and>
          n = i' + (j' + k' * unat gs1) * unat gs0" for i' j' k'
      using index_inj [of i' "unat gs0" j' "unat gs1" i j k' k] that r by simp
    with r show ?thesis by blast
  qed
  note uniq = this
  have bound: "i + (j + k * unat gs1) * unat gs0 < m_totalWorkItems g"
    if "i < unat gs0 \<and> j < unat gs1 \<and> k < unat gs2" for i j k
    unfolding g(2) using that by (intro index_less) simp_all
  show "\<exists>g. WorkGroup_new new localTemplate globalMem console workDim wgid globalSize
                 (gs0, gs1, gs2) = Inr g \<and>
           m_totalWorkItems g = unat gs0 * unat gs1 * unat gs2 \<and>
           (\<forall>i j k. i < unat gs0 \<and> j < unat gs1 \<and> k < unat gs2 \<longrightarrow>
              i + (j + k * unat gs1) * unat gs0 < m_totalWorkItems g \<and>
              m_workItems g ! (i + (j + k * unat gs1) * unat gs0) =
                new (of_nat i) (of_nat j) (of_nat k)) \<and>
           (\<forall>n < m_totalWorkItems g. \<exists>i j k. i < unat gs0 \<and> j < unat gs1 \<and> k < unat gs2 \<and>
              n = i + (j + k * unat gs1) * unat gs0 \<and>
              (\<forall>i' j' k'. i' < unat gs0 \<and> j' < unat gs1 \<and> k' < unat gs2 \<and>
                 n = i' + (j' + k' * unat gs1) * unat gs0 \<longrightarrow> i' = i \<and> j' = j \<and> k' = k))"
  proof (rule exI [of _ g], intro conjI)
    show "WorkGroup_new new localTemplate globalMem console workDim wgid globalSize
                 (gs0, gs1, gs2) = Inr g" by (rule g(1))
    show "m_totalWorkItems g = unat gs0 * unat gs1 * unat gs2" by (rule g(2))
    show "\<forall>i j k. i < unat gs0 \<and> j < unat gs1 \<and> k < unat gs2 \<longrightarrow>
              i + (j + k * unat gs1) * unat gs0 < m_totalWorkItems g \<and>
              m_workItems g ! (i + (j + k * unat gs1) * unat gs0) =
                new (of_nat i) (of_nat j) (of_nat k)"
    proof (intro allI impI conjI)
      fix i j k assume r: "i < unat gs0 \<and> j < unat gs1 \<and> k < unat gs2"
      show "i + (j + k * unat gs1) * unat gs0 < m_totalWorkItems g" by (rule bound [OF r])
      show "m_workItems g ! (i + (j + k * unat gs1) * unat gs0) =
                new (of_nat i) (of_nat j) (of_nat k)"
        by (rule g(3) [rule_format, OF r])
    qed
    show "\<forall>n < m_totalWorkItems g. \<exists>i j k. i < unat gs0 \<and> j < unat gs1 \<and> k < unat gs2 \<and>
              n = i + (j + k * unat gs1) * unat gs0 \<and>
              (\<forall>i' j' k'. i' < unat gs0 \<and> j' < unat gs1 \<and> k' < unat gs2 \<and>
                 n = i' + (j' + k' * unat gs1) * unat gs0 \<longrightarrow> i' = i \<and> j' = j \<and> k' = k)"
    proof (rule allI, rule impI)
      fix n assume "n < m_totalWorkItems g"
      then show "\<exists>i j k. i < unat gs0 \<and> j < unat gs1 \<and> k < unat gs2 \<and>
              n = i + (j + k * unat gs1) * unat gs0 \<and>
              (\<forall>i' j' k'. i' < unat gs0 \<and> j' < unat gs1 \<and> k' < unat gs2 \<and>
                 n = i' + (j' + k' * unat gs1) * unat gs0 \<longrightarrow> i' = i \<and> j' = j \<and> k' = k)"
        by (rule uniq)
    qed
  qed
next
  show "for_items X oi 0 nb nw nf wg = visit_in_order X oi [0..<m_totalWorkItems wg] nb nw nf wg"
    by (rule for_items_eq)
  show "sorted_wrt (<) [0..<m_totalWorkItems wg]" by simp
next
  assume "getState X (m_workItems wg ! x) \<noteq> READY"
  then show "visit X oi x nb nw nf wg = Some (Inr (nb, nw, nf, wg))" by (rule visit_skip)
next
  let ?s0 = "if oi then print_header X (m_workItems wg ! x) (env wg) else env wg"
  assume a: "getState X (m_workItems wg ! x) = READY \<and>
    visit X oi x nb nw nf wg = Some (Inr (nb', nw', nf', wg'))"
  from visit_ready [of X wg x oi nb nw nf nb' nw' nf' wg'] a obtain st w' s' where
    lp: "step_loop X oi READY (m_workItems wg ! x) ?s0 = Some (Inr (st, w', s'))"
    and w: "m_workItems wg' = (m_workItems wg)[x := w']"
    and u: "update_counters X oi st nb nw nf s' = (nb', nw', nf', env wg')"
    by blast
  from step_loop_step_n [OF lp] obtain n where
    n: "step_n X oi n (READY, m_workItems wg ! x, ?s0) = Inr (st, w', s')" "st \<noteq> READY"
    "\<forall>m<n. \<exists>c. step_n X oi m (READY, m_workItems wg ! x, ?s0) = Inr c \<and> fst c = READY"
    by auto
  have "0 < n"
  proof (rule ccontr)
    assume "\<not> 0 < n"
    with n(1,2) show False by simp
  qed
  moreover note w
  ultimately show "\<exists>n st w' s'. 0 < n \<and>
         step_n X oi n (READY, m_workItems wg ! x, ?s0) = Inr (st, w', s') \<and>
         st \<noteq> READY \<and>
         (\<forall>m<n. \<exists>c. step_n X oi m (READY, m_workItems wg ! x, ?s0) = Inr c \<and>
            fst c = READY) \<and>
         m_workItems wg' = (m_workItems wg)[x := w'] \<and>
         update_counters X oi st nb nw nf s' = (nb', nw', nf', env wg')"
    using n u by blast
next
  let ?s0 = "if oi then print_header X (m_workItems wg ! x) (env wg) else env wg"
  assume a: "getState X (m_workItems wg ! x) = READY \<and>
    step_n X oi n1 (READY, m_workItems wg ! x, ?s0) = Inr (st1, w1, s1) \<and>
    st1 \<noteq> READY \<and>
    (\<forall>m<n1. \<exists>c. step_n X oi m (READY, m_workItems wg ! x, ?s0) = Inr c \<and> fst c = READY)"
  then have r: "getState X (m_workItems wg ! x) = READY"
    and n: "step_n X oi n1 (READY, m_workItems wg ! x, ?s0) = Inr (st1, w1, s1)"
    and f: "fst (st1, w1, s1) \<noteq> READY"
    and m: "\<forall>m<n1. \<exists>c. step_n X oi m (READY, m_workItems wg ! x, ?s0) = Inr c \<and> fst c = READY"
    by simp_all
  from step_n_step_loop [OF n f m]
  have "step_loop X oi READY (m_workItems wg ! x) ?s0 = Some (Inr (st1, w1, s1))" .
  from visit_step_loop [OF r this] show "visit X oi x nb nw nf wg =
        Some (Inr (case update_counters X oi st1 nb nw nf s1 of
                     (nb1, nw1, nf1, s2) \<Rightarrow>
                       (nb1, nw1, nf1, wg\<lparr>m_workItems := (m_workItems wg)[x := w1], env := s2\<rparr>)))"
    by (simp split: prod.splits)
next
  let ?s0 = "if oi then print_header X (m_workItems wg ! x) (env wg) else env wg"
  assume a: "getState X (m_workItems wg ! x) = READY \<and>
    step_n X oi n2 (READY, m_workItems wg ! x, ?s0) = Inl e \<and>
    (\<forall>m<n2. \<exists>c. step_n X oi m (READY, m_workItems wg ! x, ?s0) = Inr c \<and> fst c = READY)"
  then have r: "getState X (m_workItems wg ! x) = READY"
    and n: "step_n X oi n2 (READY, m_workItems wg ! x, ?s0) = Inl e"
    and m: "\<forall>m<n2. \<exists>c. step_n X oi m (READY, m_workItems wg ! x, ?s0) = Inr c \<and> fst c = READY"
    by simp_all
  from step_n_step_loop_error [OF n m]
  have "step_loop X oi READY (m_workItems wg ! x) ?s0 = Some (Inl e)" .
  from visit_step_loop [OF r this] show "visit X oi x nb nw nf wg = Some (Inl e)"
    by simp
qed

text \<open>
  The claim C6 as it was stated fails for group sizes whose product does not fit a
  \<open>size_t\<close>: for the sizes \<open>(2^32, 2^32, 1)\<close> the product wraps to 0, the array has no
  element, and the first store of the constructor is past its end.
\<close>

theorem linear_indexing_counterexample:
  "(4294967296 :: 64 word) * 4294967296 * 1 = 0 \<and>
   (WorkGroup_new (new_item []) [] [] [] 3 (0, 0, 0)
      (4294967296, 4294967296, 1) (4294967296, 4294967296, 1)
    :: error + (item, 8 word list) WorkGroup) = Inl OutOfBounds"
proof -
  have z: "(4294967296 :: 64 word) * 4294967296 * 1 = 0" by simp
  have "init_items (new_item []) 4294967296 4294967296 1 = Inl OutOfBounds"
    by (rule init_items_wrapped [OF _ _ _ z]) simp_all
  with z show ?thesis by (simp add: WorkGroup_new_def)
qed

theorem linear_indexing_witness:
  "(\<exists>g. g_grid = Inr g \<and> m_totalWorkItems g = 12 \<and> m_workItems g ! 11 = new_item [] 1 2 1) \<and>
   for_items scripted False 0 0 0 0 g_skip = visit_in_order scripted False [0, 1] 0 0 0 g_skip \<and>
   visit scripted False 0 0 0 0 g_skip = Some (Inr (0, 0, 0, g_skip)) \<and>
   (\<exists>n st w' s'. 0 < n \<and>
      step_n scripted False n (READY, m_workItems g_skip ! 1, env g_skip) = Inr (st, w', s') \<and>
      st \<noteq> READY \<and>
      m_workItems (group_of [item_at FINISHED [] 0, item_at BARRIER [] 1]) =
        (m_workItems g_skip)[1 := w']) \<and>
   getState scripted (m_workItems g_skip ! 1) = READY \<and>
   step_n scripted False 1 (READY, m_workItems g_skip ! 1, env g_skip) =
     Inr (READY, item_at READY [Barrier] 1, env g_skip) \<and>
   step_n scripted False 2 (READY, m_workItems g_skip ! 1, env g_skip) =
     Inr (BARRIER, item_at BARRIER [] 1, env g_skip) \<and>
   visit scripted False 1 0 0 0 g_skip =
     Some (Inr (1, 0, 0, group_of [item_at FINISHED [] 0, item_at BARRIER [] 1])) \<and>
   getState scripted (m_workItems g_bad_wait ! 0) = READY \<and>
   step_n scripted False 1 (READY, m_workItems g_bad_wait ! 0, env g_bad_wait) =
     Inl AssertionFailed \<and>
   visit scripted False 0 0 0 0 g_bad_wait = Some (Inl AssertionFailed)"
proof -
  note t = linear_indexing [of 2 3 2 "new_item []" "[]" "[]" "[]" 3 "(0, 0, 0)" "(4, 3, 2)"
      scripted False 0 0 0 g_skip]
  have b: "unat (2 :: 64 word) * unat (3 :: 64 word) * unat (2 :: 64 word) < 2 ^ 64" by simp
  from t [of 0 0 0 0 g_skip, THEN conjunct1, THEN mp, OF b]
  obtain g where g: "g_grid = Inr g" "m_totalWorkItems g = 12"
    "\<forall>i j k. i < 2 \<and> j < 3 \<and> k < 2 \<longrightarrow>
        m_workItems g ! (i + (j + k * 3) * 2) = new_item [] (of_nat i) (of_nat j) (of_nat k)"
    unfolding g_grid_def by auto
  from g(3) have "m_workItems g ! (1 + (2 + 1 * 3) * 2) = new_item [] (of_nat 1) (of_nat 2) (of_nat 1)"
    by (intro g(3) [rule_format]) simp
  then have 1: "m_workItems g ! 11 = new_item [] 1 2 1" by simp
  have tot: "m_totalWorkItems g_skip = 2" by code_simp
  from t [of 0 0 0 0 g_skip, THEN conjunct2, THEN conjunct1]
  have 2: "for_items scripted False 0 0 0 0 g_skip = visit_in_order scripted False [0, 1] 0 0 0 g_skip"
    by (simp add: tot upt_conv_Cons)
  have s0: "getState scripted (m_workItems g_skip ! 0) \<noteq> READY" by code_simp
  from t [of 0 0 0 0 g_skip, THEN conjunct2, THEN conjunct2, THEN conjunct2, THEN conjunct1, THEN mp, OF s0]
  have 3: "visit scripted False 0 0 0 0 g_skip = Some (Inr (0, 0, 0, g_skip))" .
  have r1: "getState scripted (m_workItems g_skip ! 1) = READY" by code_simp
  have n0: "step_n scripted False 0 (READY, m_workItems g_skip ! 1, env g_skip) =
      Inr (READY, m_workItems g_skip ! 1, env g_skip)"
    by simp
  have n1: "step_n scripted False 1 (READY, m_workItems g_skip ! 1, env g_skip) =
      Inr (READY, item_at READY [Barrier] 1, env g_skip)"
    by code_simp
  have n2: "step_n scripted False 2 (READY, m_workItems g_skip ! 1, env g_skip) =
      Inr (BARRIER, item_at BARRIER [] 1, env g_skip)"
    by code_simp
  have lt2: "\<forall>m<2. \<exists>c. step_n scripted False m (READY, m_workItems g_skip ! 1, env g_skip) = Inr c \<and>
      fst c = READY"
  proof (intro allI impI)
    fix m :: nat assume "m < 2"
    then have "m = 0 \<or> m = 1" by auto
    then show "\<exists>c. step_n scripted False m (READY, m_workItems g_skip ! 1, env g_skip) = Inr c \<and>
      fst c = READY"
      using n0 n1 by auto
  qed
  have u: "(case update_counters scripted False BARRIER 0 0 0 (env g_skip) of
              (nb1, nw1, nf1, s2) \<Rightarrow>
                (nb1, nw1, nf1,
                 g_skip\<lparr>m_workItems := (m_workItems g_skip)[1 := item_at BARRIER [] 1], env := s2\<rparr>)) =
           (1, 0, 0, group_of [item_at FINISHED [] 0, item_at BARRIER [] 1])"
    by code_simp
  have h5: "getState scripted (m_workItems g_skip ! 1) = READY \<and>
      step_n scripted False 2
        (READY, m_workItems g_skip ! 1,
         if False then print_header scripted (m_workItems g_skip ! 1) (env g_skip) else env g_skip) =
        Inr (BARRIER, item_at BARRIER [] 1, env g_skip) \<and>
      BARRIER \<noteq> READY \<and>
      (\<forall>m<2. \<exists>c. step_n scripted False m
         (READY, m_workItems g_skip ! 1,
          if False then print_header scripted (m_workItems g_skip ! 1) (env g_skip) else env g_skip) =
         Inr c \<and> fst c = READY)"
    using r1 n2 lt2 by (simp only: if_False) simp
  from t [where ?n1.0 = 2 and ?st1.0 = BARRIER and ?w1.0 = "item_at BARRIER [] 1"
      and ?s1.0 = "env g_skip" and x = 1,
      THEN conjunct2, THEN conjunct2, THEN conjunct2, THEN conjunct2, THEN conjunct2,
      THEN conjunct1, THEN mp, OF h5]
  have 5: "visit scripted False 1 0 0 0 g_skip =
     Some (Inr (1, 0, 0, group_of [item_at FINISHED [] 0, item_at BARRIER [] 1]))"
    unfolding u .
  have s1: "getState scripted (m_workItems g_skip ! 1) = READY \<and>
      visit scripted False 1 0 0 0 g_skip =
        Some (Inr (1, 0, 0, group_of [item_at FINISHED [] 0, item_at BARRIER [] 1]))"
    using r1 5 by simp
  from t [of 1 1 0 0 "group_of [item_at FINISHED [] 0, item_at BARRIER [] 1]",
      THEN conjunct2, THEN conjunct2, THEN conjunct2, THEN conjunct2, THEN conjunct1,
      THEN mp, OF s1]
  have 4: "\<exists>n st w' s'. 0 < n \<and>
      step_n scripted False n (READY, m_workItems g_skip ! 1, env g_skip) = Inr (st, w', s') \<and>
      st \<noteq> READY \<and>
      m_workItems (group_of [item_at FINISHED [] 0, item_at BARRIER [] 1]) =
        (m_workItems g_skip)[1 := w']"
    by (simp only: if_False) blast
  have rb: "getState scripted (m_workItems g_bad_wait ! 0) = READY" by code_simp
  have e1: "step_n scripted False 1 (READY, m_workItems g_bad_wait ! 0, env g_bad_wait) =
      Inl AssertionFailed"
    by code_simp
  have lt1: "\<forall>m<1. \<exists>c. step_n scripted False m
         (READY, m_workItems g_bad_wait ! 0, env g_bad_wait) = Inr c \<and> fst c = READY"
    by simp
  have h6: "getState scripted (m_workItems g_bad_wait ! 0) = READY \<and>
      step_n scripted False 1
        (READY, m_workItems g_bad_wait ! 0,
         if False then print_header scripted (m_workItems g_bad_wait ! 0) (env g_bad_wait)
         else env g_bad_wait) = Inl AssertionFailed \<and>
      (\<forall>m<1. \<exists>c. step_n scripted False m
         (READY, m_workItems g_bad_wait ! 0,
          if False then print_header scripted (m_workItems g_bad_wait ! 0) (env g_bad_wait)
          else env g_bad_wait) = Inr c \<and> fst c = READY)"
    using rb e1 lt1 by (simp only: if_False)
  from linear_indexing [where X = scripted and oi = False and wg = g_bad_wait and x = 0
      and ?n2.0 = 1 and e = AssertionFailed and nb = 0 and nw = 0 and nf = 0,
      THEN conjunct2, THEN conjunct2, THEN conjunct2, THEN conjunct2, THEN conjunct2,
      THEN conjunct2, THEN mp, OF h6]
  have 6: "visit scripted False 0 0 0 0 g_bad_wait = Some (Inl AssertionFailed)" .
  from g(1,2) 1 2 3 4 r1 n1 n2 5 rb e1 6 show ?thesis by blast
qed

section \<open>The event handles of a constructed work-group\<close>

text \<open>
  C7 (event-handle monotonicity).  When the product of the three group sizes fits a
  \<open>size_t\<close>, the constructor returns a work-group whose counter is 1 over an empty
  registry, and whatever work-group the constructor returns has them so.  A request
  that allocates returns the value of the counter and adds one to it, which makes the
  counter strictly greater as long as it is below \<open>2^64 - 1\<close> (the counter is a 64-bit
  unsigned integer); a request that finds its descriptor leaves the counter alone.  Over
  any life of fewer than \<open>2^64 - 1\<close> operations that starts from the constructed
  state, the handles allocated are \<open>1, 2, 3, \<dots>\<close> in this order, so no handle is
  allocated twice, the counter is one more than their number, and every pending handle
  holds exactly the one descriptor it was allocated for.
\<close>

theorem event_handles_monotone:
  fixes gs0 gs1 gs2 :: "64 word"
  shows
  "(unat gs0 * unat gs1 * unat gs2 < 2 ^ 64 \<longrightarrow>
      (\<exists>wg. WorkGroup_new new localTemplate globalMem console workDim wgid globalSize
               (gs0, gs1, gs2) = Inr wg \<and>
            m_nextEvent (env wg) = 1 \<and> m_pendingEvents (env wg) = [])) \<and>
   (WorkGroup_new new localTemplate globalMem console workDim wgid globalSize groupSize = Inr wg \<longrightarrow>
      m_nextEvent (env wg) = 1 \<and> m_pendingEvents (env wg) = []) \<and>
   (find_copy (m_pendingEvents s) copy = None \<longrightarrow>
      fst (async_copy copy event s) = m_nextEvent s \<and>
      m_nextEvent (snd (async_copy copy event s)) = m_nextEvent s + 1 \<and>
      (unat (m_nextEvent s) < 2 ^ 64 - 1 \<longrightarrow>
         m_nextEvent s < m_nextEvent (snd (async_copy copy event s)))) \<and>
   (find_copy (m_pendingEvents s) copy \<noteq> None \<longrightarrow>
      m_nextEvent (snd (async_copy copy event s)) = m_nextEvent s) \<and>
   (m_nextEvent s0 = 1 \<and> m_pendingEvents s0 = [] \<and> length ops < 2 ^ 64 - 1 \<and>
    fold (apply_op X) ops ([], s0) = (log, s') \<longrightarrow>
      distinct (map fst log) \<and>
      map fst log = map of_nat [1..<1 + length log] \<and>
      unat (m_nextEvent s') = 1 + length log \<and>
      (\<forall>(h, cs) \<in> set (m_pendingEvents s'). \<exists>c. cs = [c] \<and> (h, c) \<in> set log))"
proof (intro conjI impI)
  assume b: "unat gs0 * unat gs1 * unat gs2 < 2 ^ 64"
  from WorkGroup_new_ok [OF b, of new localTemplate globalMem console workDim wgid globalSize]
  obtain g where g: "WorkGroup_new new localTemplate globalMem console workDim wgid globalSize
                 (gs0, gs1, gs2) = Inr g"
    by blast
  from WorkGroup_new_env [OF g] have "m_nextEvent (env g) = 1 \<and> m_pendingEvents (env g) = []"
    by simp
  with g show "\<exists>wg. WorkGroup_new new localTemplate globalMem console workDim wgid globalSize
               (gs0, gs1, gs2) = Inr wg \<and>
            m_nextEvent (env wg) = 1 \<and> m_pendingEvents (env wg) = []"
    by blast
next
  assume "WorkGroup_new new localTemplate globalMem console workDim wgid globalSize groupSize = Inr wg"
  from WorkGroup_new_env [OF this]
  show "m_nextEvent (env wg) = 1" and "m_pendingEvents (env wg) = []" by simp_all
next
  assume n: "find_copy (m_pendingEvents s) copy = None"
  show "fst (async_copy copy event s) = m_nextEvent s"
    and "m_nextEvent (snd (async_copy copy event s)) = m_nextEvent s + 1"
    by (simp_all add: async_copy_fresh [OF n])
  assume "unat (m_nextEvent s) < 2 ^ 64 - 1"
  then have "unat (m_nextEvent s + 1) = unat (m_nextEvent s) + 1"
    by (intro unat_succ64) simp
  then show "m_nextEvent s < m_nextEvent (snd (async_copy copy event s))"
    by (simp add: async_copy_fresh [OF n] word_less_nat_alt)
next
  assume "find_copy (m_pendingEvents s) copy \<noteq> None"
  then obtain h where "find_copy (m_pendingEvents s) copy = Some h" by blast
  then show "m_nextEvent (snd (async_copy copy event s)) = m_nextEvent s"
    by (simp add: async_copy_found)
next
  assume a: "m_nextEvent s0 = 1 \<and> m_pendingEvents s0 = [] \<and> length ops < 2 ^ 64 - 1 \<and>
    fold (apply_op X) ops ([], s0) = (log, s')"
  then have f: "fold (apply_op X) ops ([], s0) = (log, s')" by simp
  have i: "unat (m_nextEvent s') = 1 + length log \<and>
         map fst log = map of_nat [1..<1 + length log] \<and>
         length log \<le> length ([] :: (64 word \<times> AsyncCopy) list) + length ops"
    by (rule lifetime_inv [OF _ _ _ f]) (use a in simp_all)
  with a have b: "length log < 2 ^ 64 - 1" by simp
  from i show "map fst log = map of_nat [1..<1 + length log]"
    and "unat (m_nextEvent s') = 1 + length log" by simp_all
  from distinct_handles [OF _ b] i show "distinct (map fst log)" by simp
  have "registered [] (m_pendingEvents s0)" using a by (simp add: registered_def)
  from lifetime_registered [OF this f]
  show "\<forall>(h, cs) \<in> set (m_pendingEvents s'). \<exists>c. cs = [c] \<and> (h, c) \<in> set log"
    by (simp add: registered_def)
qed

theorem event_handles_monotone_witness:
  "(\<exists>wg. WorkGroup_new (new_item [Barrier]) [0, 0, 0, 0 :: 8 word] [1, 2, 3, 4 :: 8 word] [] 1
            (0, 0, 0) (2, 1, 1) (2, 1, 1) = Inr wg \<and>
         m_nextEvent (env wg) = 1 \<and> m_pendingEvents (env wg) = []) \<and>
   WorkGroup_new (new_item [Barrier]) [0, 0, 0, 0] [1, 2, 3, 4] [] 1 (0, 0, 0) (2, 1, 1) (2, 1, 1) =
     Inr g_barrier \<and>
   m_nextEvent (env g_barrier) = 1 \<and>
   fst (async_copy copy8 7 env1) = 2 \<and>
   m_nextEvent (snd (async_copy copy8 7 env1)) = 3 \<and>
   m_nextEvent env1 < m_nextEvent (snd (async_copy copy8 7 env1)) \<and>
   m_nextEvent (snd (async_copy copy16 7 env1)) = 2 \<and>
   distinct (map fst [(1 :: 64 word, copy16), (2, copy8), (3, copy16)]) \<and>
   unat (m_nextEvent ((env0 [] [])\<lparr>m_pendingEvents := [(2, [copy8]), (3, [copy16])],
                                    m_nextEvent := 4\<rparr>)) = 1 + 3"
proof -
  have b: "unat (2 :: 64 word) * unat (1 :: 64 word) * unat (1 :: 64 word) < 2 ^ 64" by simp
  from event_handles_monotone [where ?gs0.0 = 2 and ?gs1.0 = 1 and ?gs2.0 = 1
      and new = "new_item [Barrier]" and localTemplate = "[0, 0, 0, 0 :: 8 word]"
      and globalMem = "[1, 2, 3, 4 :: 8 word]" and console = "[]" and workDim = 1
      and wgid = "(0, 0, 0)" and globalSize = "(2, 1, 1)",
      THEN conjunct1, THEN mp, OF b]
  have 0: "\<exists>wg. WorkGroup_new (new_item [Barrier]) [0, 0, 0, 0 :: 8 word] [1, 2, 3, 4 :: 8 word] [] 1
            (0, 0, 0) (2, 1, 1) (2, 1, 1) = Inr wg \<and>
         m_nextEvent (env wg) = 1 \<and> m_pendingEvents (env wg) = []" .
  have c: "WorkGroup_new (new_item [Barrier]) [0, 0, 0, 0] [1, 2, 3, 4] [] 1 (0, 0, 0) (2, 1, 1)
             (2, 1, 1) = Inr g_barrier"
    by code_simp
  from event_handles_monotone [THEN conjunct2, THEN conjunct1, THEN mp, OF c]
  have 1: "m_nextEvent (env g_barrier) = 1" by simp
  have n: "find_copy (m_pendingEvents env1) copy8 = None" by code_simp
  have k: "unat (m_nextEvent env1) < 2 ^ 64 - 1" by (simp add: env1_def)
  from event_handles_monotone [where s = env1 and copy = copy8 and event = 7,
      THEN conjunct2, THEN conjunct2, THEN conjunct1, THEN mp, OF n] k
  have 2: "fst (async_copy copy8 7 env1) = 2"
    "m_nextEvent (snd (async_copy copy8 7 env1)) = 3"
    "m_nextEvent env1 < m_nextEvent (snd (async_copy copy8 7 env1))"
    by (simp_all add: env1_def)
  have f: "find_copy (m_pendingEvents env1) copy16 \<noteq> None" by code_simp
  from event_handles_monotone [where s = env1 and copy = copy16 and event = 7,
      THEN conjunct2, THEN conjunct2, THEN conjunct2, THEN conjunct1, THEN mp, OF f]
  have 3: "m_nextEvent (snd (async_copy copy16 7 env1)) = 2" by (simp add: env1_def)
  have l1: "m_nextEvent (env0 [] [] :: (8 word list) Env) = 1 \<and>
      m_pendingEvents (env0 [] [] :: (8 word list) Env) = []"
    by (simp add: env0_def)
  have l2: "length ops1 < 2 ^ 64 - 1" by (simp add: ops1_def)
  have l3: "fold (apply_op scripted) ops1 ([], env0 [] []) =
        ([(1, copy16), (2, copy8), (3, copy16)],
         (env0 [] [])\<lparr>m_pendingEvents := [(2, [copy8]), (3, [copy16])], m_nextEvent := 4\<rparr>)"
    by code_simp
  from l1 l2 l3
  have l: "m_nextEvent (env0 [] [] :: (8 word list) Env) = 1 \<and>
      m_pendingEvents (env0 [] [] :: (8 word list) Env) = [] \<and>
      length ops1 < 2 ^ 64 - 1 \<and>
      fold (apply_op scripted) ops1 ([], env0 [] []) =
        ([(1, copy16), (2, copy8), (3, copy16)],
         (env0 [] [])\<lparr>m_pendingEvents := [(2, [copy8]), (3, [copy16])], m_nextEvent := 4\<rparr>)"
    by (intro conjI) (rule conjunct1, assumption, rule conjunct2, assumption, assumption+)
  from event_handles_monotone [where ?s0.0 = "env0 [] []" and ops = ops1 and X = scripted,
      THEN conjunct2, THEN conjunct2, THEN conjunct2, THEN conjunct2, THEN mp, OF l]
  have 4: "distinct (map fst [(1 :: 64 word, copy16), (2, copy8), (3, copy16)])"
    "unat (m_nextEvent ((env0 [] [])\<lparr>m_pendingEvents := [(2, [copy8]), (3, [copy16])],
                                    m_nextEvent := 4\<rparr>)) = 1 + 3"
    by simp_all
  from 0 c 1 2 3 4 show ?thesis by blast
qed

section \<open>What a caller of \<open>run\<close> can observe\<close>

lemma getters_say [simp]: "getters (say txt wg) = getters wg"
  by (simp add: getters_def say_def)

lemma getters_clear_all [simp]: "getters (clear_all X wg) = getters wg"
  by (simp add: getters_def clear_all_eq)

lemma getters_env [simp]: "getters (wg\<lparr>env := s\<rparr>) = getters wg"
  by (simp add: getters_def)

lemma barrier_check_frame:
  "getters (of_flow (barrier_check X oi nb wg)) = getters wg \<and>
   m_totalWorkItems (of_flow (barrier_check X oi nb wg)) = m_totalWorkItems wg"
  by (simp add: barrier_check_def of_flow_def)

lemma wait_check_frame:
  "getters (of_flow (wait_check X oi nw wg)) = getters wg \<and>
   m_totalWorkItems (of_flow (wait_check X oi nw wg)) = m_totalWorkItems wg"
  by (simp add: wait_check_def of_flow_def)

lemma barrier_check_Return:
  "barrier_check X oi nb wg = Return w \<Longrightarrow> w = say ''Barrier divergence detected.'' wg"
  by (simp add: barrier_check_def split: if_splits)

lemma wait_check_Return:
  "wait_check X oi nw wg = Return w \<Longrightarrow> w = say ''Wait for events divergence detected.'' wg"
  by (simp add: wait_check_def split: if_splits)

lemma run_loop_frame:
  assumes "run_loop X oi nf wg = Some r"
  shows "\<forall>f. r = Inr f \<longrightarrow>
           getters (of_flow f) = getters wg \<and>
           m_totalWorkItems (of_flow f) = m_totalWorkItems wg \<and>
           (\<forall>w. f = Return w \<longrightarrow>
              (\<exists>w0. w = say ''Barrier divergence detected.'' w0 \<or>
                    w = say ''Wait for events divergence detected.'' w0))"
proof (induction X oi nf wg r rule: run_loop.raw_induct)
  case (1 run_loop X oi nf wg r)
  show ?case
  proof (cases "nf < m_totalWorkItems wg")
    case False
    with "1.hyps" have "r = Inr (Next wg)" by simp
    then show ?thesis by (simp add: of_flow_def)
  next
    case True
    show ?thesis
    proof (intro allI impI)
      fix f assume r: "r = Inr f"
      from "1.hyps" True r obtain nb nw nf' wg1 where
        p: "for_items X oi 0 0 0 nf wg = Some (Inr (nb, nw, nf', wg1))"
        and k: "(case barrier_check X oi nb wg1 of
              Return w \<Rightarrow> Some (Inr (Return w))
            | Next wg2 \<Rightarrow>
                (case wait_check X oi nw wg2 of
                   Return w \<Rightarrow> Some (Inr (Return w))
                 | Next wg3 \<Rightarrow> run_loop X oi nf' wg3)) = Some (Inr f)"
        by (auto split: Option.bind_splits sum.splits)
      from for_items_frame [OF p] have f1: "getters wg1 = getters wg"
        "m_totalWorkItems wg1 = m_totalWorkItems wg" by (simp_all add: getters_def)
      show "getters (of_flow f) = getters wg \<and>
           m_totalWorkItems (of_flow f) = m_totalWorkItems wg \<and>
           (\<forall>w. f = Return w \<longrightarrow>
              (\<exists>w0. w = say ''Barrier divergence detected.'' w0 \<or>
                    w = say ''Wait for events divergence detected.'' w0))"
      proof (cases "barrier_check X oi nb wg1")
        case (Return w)
        with k have "f = Return w" by simp
        with barrier_check_Return [OF Return] barrier_check_frame [of X oi nb wg1] f1 Return
        show ?thesis by (auto simp: of_flow_def)
      next
        case (Next wg2)
        with barrier_check_frame [of X oi nb wg1] f1
        have f2: "getters wg2 = getters wg" "m_totalWorkItems wg2 = m_totalWorkItems wg"
          by (simp_all add: of_flow_def)
        show ?thesis
        proof (cases "wait_check X oi nw wg2")
          case (Return w)
          with k Next have "f = Return w" by simp
          with wait_check_Return [OF Return] wait_check_frame [of X oi nw wg2] f2 Return
          show ?thesis by (auto simp: of_flow_def)
        next
          case (Next wg3)
          with wait_check_frame [of X oi nw wg2] f2
          have f3: "getters wg3 = getters wg" "m_totalWorkItems wg3 = m_totalWorkItems wg"
            by (simp_all add: of_flow_def)
          from k \<open>barrier_check X oi nb wg1 = Next wg2\<close> Next
          have "run_loop X oi nf' wg3 = Some (Inr f)" by simp
          from "1.IH" [OF this] f3 show ?thesis by simp
        qed
      qed
    qed
  qed
qed fact

text \<open>
  C8 (fault distinguishability), as amended.  \<open>run\<close> returns no value.  Whatever
  way it returns, the work-group it leaves has the sizes, the group identifier, the
  dimension and the number of work-items it had before.  When the loop is left through
  one of its \<open>return\<close> statements, the last thing done was to print the line
  ``Barrier divergence detected.'' or the line ``Wait for events divergence detected.'';
  that work-group is then what \<open>run\<close> leaves.  A failed assertion inside a step (an
  invalid handle given to \<open>wait_event\<close>) ends the pass, the loop and \<open>run\<close> with the
  error: the process is aborted and nothing is returned.
\<close>

theorem run_reports_by_output_only:
  "(run X oi wg = Some (Inr wg') \<longrightarrow>
      getters wg' = getters wg \<and> m_totalWorkItems wg' = m_totalWorkItems wg) \<and>
   (run_loop X oi nf wg = Some (Inr (Return w)) \<longrightarrow>
      (\<exists>w0. w = w0\<lparr>env := print_line ''Barrier divergence detected.'' (env w0)\<rparr> \<or>
            w = w0\<lparr>env := print_line ''Wait for events divergence detected.'' (env w0)\<rparr>)) \<and>
   (run_loop X oi 0 wg = Some (Inr (Return w)) \<longrightarrow> run X oi wg = Some (Inr w)) \<and>
   (nf < m_totalWorkItems wg \<and> for_items X oi 0 0 0 nf wg = Some (Inl e) \<longrightarrow>
      run_loop X oi nf wg = Some (Inl e)) \<and>
   (run_loop X oi 0 wg = Some (Inl e) \<longrightarrow> run X oi wg = Some (Inl e))"
proof (intro conjI impI)
  assume a: "run X oi wg = Some (Inr wg')"
  then obtain f where l: "run_loop X oi 0 wg = Some (Inr f)"
    and w: "wg' = (case f of Return w \<Rightarrow> w
                   | Next w \<Rightarrow> if oi then say ''All work-items completed kernel.'' w else w)"
    by (auto simp: run_def split: Option.bind_splits sum.splits flow.splits)
  from run_loop_frame [OF l] have "getters (of_flow f) = getters wg"
    "m_totalWorkItems (of_flow f) = m_totalWorkItems wg" by simp_all
  with w show "getters wg' = getters wg" and "m_totalWorkItems wg' = m_totalWorkItems wg"
    by (cases f; simp add: of_flow_def)+
next
  assume "run_loop X oi nf wg = Some (Inr (Return w))"
  from run_loop_frame [OF this]
  show "\<exists>w0. w = w0\<lparr>env := print_line ''Barrier divergence detected.'' (env w0)\<rparr> \<or>
            w = w0\<lparr>env := print_line ''Wait for events divergence detected.'' (env w0)\<rparr>"
    by (simp add: say_def)
next
  assume "run_loop X oi 0 wg = Some (Inr (Return w))"
  then show "run X oi wg = Some (Inr w)" by (simp add: run_def)
next
  assume "nf < m_totalWorkItems wg \<and> for_items X oi 0 0 0 nf wg = Some (Inl e)"
  then show "run_loop X oi nf wg = Some (Inl e)" by (subst run_loop.simps) simp
next
  assume "run_loop X oi 0 wg = Some (Inl e)"
  then show "run X oi wg = Some (Inl e)" by (simp add: run_def)
qed

text \<open>
  The claim C8 as it was stated fails: a run that ends in a barrier divergence and a run
  that completes leave the caller with the same values of the accessors and the same
  memories; they differ in what was printed, and in the private states of the work-items.
\<close>

theorem run_result_counterexample:
  "printed (run scripted False g_div2) = Some [Str ''Barrier divergence detected.'', Endl] \<and>
   printed (run scripted False g_ok2) = Some [] \<and>
   returned (run scripted False g_div2) = returned (run scripted False g_ok2) \<and>
   returned (run scripted False g_ok2) \<noteq> None"
  by code_simp

theorem run_reports_by_output_only_witness:
  "returned (run scripted False g_div2) = Some (getters g_div2, [0, 0, 0, 0], [1, 2, 3, 4]) \<and>
   printed (run scripted False g_div2) = Some [Str ''Barrier divergence detected.'', Endl] \<and>
   run scripted False g_bad_wait = Some (Inl AssertionFailed)"
proof -
  let ?w = "(group_of [item_at BARRIER [] 0, item_at FINISHED [] 1])
              \<lparr>env := (env0 [0, 0, 0, 0] [1, 2, 3, 4])
                        \<lparr>cout := [Str ''Barrier divergence detected.'', Endl]\<rparr>\<rparr>"
  have l: "run_loop scripted False 0 g_div2 = Some (Inr (Return ?w))" by code_simp
  note t = run_reports_by_output_only [of scripted False g_div2 _ 0 ?w]
  from t [THEN conjunct2, THEN conjunct2, THEN conjunct1, THEN mp, OF l]
  have r: "run scripted False g_div2 = Some (Inr ?w)" .
  from t [of ?w, THEN conjunct1, THEN mp, OF r]
  have 1: "returned (run scripted False g_div2) =
      Some (getters g_div2, [0, 0, 0, 0], [1, 2, 3, 4])"
    by (simp add: r returned_def env0_def)
  from r have 2: "printed (run scripted False g_div2) =
      Some [Str ''Barrier divergence detected.'', Endl]"
    by (simp add: printed_def)
  have n: "(0 :: nat) < m_totalWorkItems g_bad_wait \<and>
      for_items scripted False 0 0 0 0 g_bad_wait = Some (Inl AssertionFailed)"
    by code_simp
  from run_reports_by_output_only [of scripted False g_bad_wait _ 0 _ AssertionFailed,
      THEN conjunct2, THEN conjunct2, THEN conjunct2, THEN conjunct1, THEN mp, OF n]
  have "run_loop scripted False 0 g_bad_wait = Some (Inl AssertionFailed)" .
  from run_reports_by_output_only [of scripted False g_bad_wait _ 0 _ AssertionFailed,
      THEN conjunct2, THEN conjunct2, THEN conjunct2, THEN conjunct2, THEN mp, OF this]
  have 3: "run scripted False g_bad_wait = Some (Inl AssertionFailed)" .
  from 1 2 3 show ?thesis by simp
qed

section \<open>Termination of \<open>run\<close>\<close>

lemma step_loop_total:
  assumes "approaching X dist" and "getState X w = READY"
  shows "(\<exists>e. step_loop X oi READY w s = Some (Inl e) \<and> raises X oi e) \<or>
         (\<exists>st w' s'. step_loop X oi READY w s = Some (Inr (st, w', s')) \<and>
            st \<noteq> READY \<and> getState X w' = st \<and> dist w' < dist w)"
  using assms(2)
proof (induction "dist w" arbitrary: w s rule: less_induct)
  case less
  from assms(1) less.prems consider
    (fail) e where "step X oi w s = Inl e"
    | (ok) st1 w1 s1 where "step X oi w s = Inr (st1, w1, s1)" "getState X w1 = st1"
        "dist w1 < dist w"
    unfolding approaching_def by blast
  then show ?case
  proof cases
    case fail
    then have "step_loop X oi READY w s = Some (Inl e)"
      by (subst step_loop.simps) simp
    moreover from fail less.prems have "raises X oi e" unfolding raises_def by blast
    ultimately show ?thesis by blast
  next
    case ok
    have u: "step_loop X oi READY w s = step_loop X oi st1 w1 s1"
      by (subst step_loop.simps) (simp add: ok(1))
    show ?thesis
    proof (cases "st1 = READY")
      case True
      with ok(2) have "getState X w1 = READY" by simp
      from less.hyps [OF ok(3) this, of s1] consider
        (fail1) e where "step_loop X oi READY w1 s1 = Some (Inl e)" "raises X oi e"
        | (ok1) st w' s' where "step_loop X oi READY w1 s1 = Some (Inr (st, w', s'))"
            "st \<noteq> READY" "getState X w' = st" "dist w' < dist w1"
        by blast
      then show ?thesis
      proof cases
        case fail1
        with u True show ?thesis by simp
      next
        case ok1
        with u True ok(3) have "step_loop X oi READY w s = Some (Inr (st, w', s')) \<and>
            st \<noteq> READY \<and> getState X w' = st \<and> dist w' < dist w"
          by simp
        then show ?thesis by blast
      qed
    next
      case False
      then have "step_loop X oi st1 w1 s1 = Some (Inr (st1, w1, s1))"
        by (subst step_loop.simps) simp
      with u False ok(2,3) show ?thesis by simp
    qed
  qed
qed

lemma visit_finished:
  assumes "getState X x \<noteq> READY"
  shows "visit X oi (length pre) nb nw nf (wg\<lparr>m_workItems := pre @ x # rest, env := s\<rparr>) =
         Some (Inr (nb, nw, nf, wg\<lparr>m_workItems := pre @ x # rest, env := s\<rparr>))"
  using assms by (simp add: visit_def)

lemma visit_stepped:
  assumes "approaching X dist" and "getState X x = READY"
  shows "(\<exists>e. visit X oi (length pre) nb nw nf (wg\<lparr>m_workItems := pre @ x # rest, env := s\<rparr>) =
             Some (Inl e) \<and> raises X oi e) \<or>
         (\<exists>st w' s' nb' nw' nf'.
           visit X oi (length pre) nb nw nf (wg\<lparr>m_workItems := pre @ x # rest, env := s\<rparr>) =
             Some (Inr (nb', nw', nf', wg\<lparr>m_workItems := pre @ w' # rest, env := s'\<rparr>)) \<and>
           st \<noteq> READY \<and> getState X w' = st \<and> dist w' < dist x \<and>
           nb' = (if st = BARRIER then nb + 1 else nb) \<and>
           nw' = (if st = WAIT_EVENT then nw + 1 else nw) \<and>
           nf' = (if st = FINISHED then nf + 1 else nf))"
proof -
  let ?s0 = "if oi then print_header X x s else s"
  from step_loop_total [OF assms, of oi ?s0] consider
    (fail) e where "step_loop X oi READY x ?s0 = Some (Inl e)" "raises X oi e"
    | (ok) st w' s1 where "step_loop X oi READY x ?s0 = Some (Inr (st, w', s1))"
        "st \<noteq> READY" "getState X w' = st" "dist w' < dist x"
    by blast
  then show ?thesis
  proof cases
    case fail
    have "visit X oi (length pre) nb nw nf (wg\<lparr>m_workItems := pre @ x # rest, env := s\<rparr>) =
             Some (Inl e)"
      using assms(2) fail(1) by (cases oi) (simp_all add: visit_def)
    with fail(2) show ?thesis by blast
  next
    case ok
    obtain nb' nw' nf' s' where u: "update_counters X oi st nb nw nf s1 = (nb', nw', nf', s')"
      by (cases "update_counters X oi st nb nw nf s1") auto
    have c: "nb' = (if st = BARRIER then nb + 1 else nb) \<and>
             nw' = (if st = WAIT_EVENT then nw + 1 else nw) \<and>
             nf' = (if st = FINISHED then nf + 1 else nf)"
      using u by (auto simp: update_counters_def split: if_splits)
    have "visit X oi (length pre) nb nw nf (wg\<lparr>m_workItems := pre @ x # rest, env := s\<rparr>) =
               Some (Inr (nb', nw', nf', wg\<lparr>m_workItems := pre @ w' # rest, env := s'\<rparr>))"
      using assms(2) ok(1) u by (cases oi) (simp_all add: visit_def)
    with ok(2,3,4) c show ?thesis by blast
  qed
qed

lemma cnt_Cons:
  "cnt X st (w # ws) = (if getState X w = st then cnt X st ws + 1 else cnt X st ws)"
  by (simp add: cnt_def)

lemma pass_total:
  assumes "approaching X dist"
    and "\<forall>w \<in> set rest. getState X w = READY \<or> getState X w = FINISHED"
  shows "(\<exists>e. visit_in_order X oi [length pre..<length pre + length rest] nb nw nf
             (wg\<lparr>m_workItems := pre @ rest, env := s\<rparr>) = Some (Inl e) \<and> raises X oi e) \<or>
         (\<exists>rest' s' nb' nw' nf'.
           visit_in_order X oi [length pre..<length pre + length rest] nb nw nf
             (wg\<lparr>m_workItems := pre @ rest, env := s\<rparr>) =
             Some (Inr (nb', nw', nf', wg\<lparr>m_workItems := pre @ rest', env := s'\<rparr>)) \<and>
           length rest' = length rest \<and>
           (\<forall>w \<in> set rest'. getState X w \<noteq> READY) \<and>
           nb' = nb + cnt X BARRIER rest' \<and>
           nw' = nw + cnt X WAIT_EVENT rest' \<and>
           nf' + cnt X FINISHED rest = nf + cnt X FINISHED rest' \<and>
           sum_list (map dist rest') + cnt X READY rest \<le> sum_list (map dist rest))"
  using assms(2)
proof (induction rest arbitrary: pre nb nw nf s)
  case Nil
  have "visit_in_order X oi [length pre..<length pre + length ([] :: 'a list)] nb nw nf
             (wg\<lparr>m_workItems := pre @ [], env := s\<rparr>) =
             Some (Inr (nb, nw, nf, wg\<lparr>m_workItems := pre @ [], env := s\<rparr>)) \<and>
           length ([] :: 'a list) = length ([] :: 'a list) \<and>
           (\<forall>w \<in> set ([] :: 'a list). getState X w \<noteq> READY) \<and>
           nb = nb + cnt X BARRIER [] \<and>
           nw = nw + cnt X WAIT_EVENT [] \<and>
           nf + cnt X FINISHED [] = nf + cnt X FINISHED [] \<and>
           sum_list (map dist []) + cnt X READY [] \<le> sum_list (map dist [])"
    by (simp add: cnt_def)
  then show ?case by blast
next
  case (Cons x rest)
  have up: "[length pre..<length pre + length (x # rest)] =
            length pre # [length (pre @ [x])..<length (pre @ [x]) + length rest]"
    using upt_conv_Cons [of "length pre" "length pre + length (x # rest)"] by simp
  from Cons.prems have r: "\<forall>w \<in> set rest. getState X w = READY \<or> getState X w = FINISHED"
    by simp
  show ?case
  proof (cases "getState X x = READY")
    case False
    with Cons.prems have fin: "getState X x = FINISHED" by simp
    from Cons.IH [OF r, of "pre @ [x]" nb nw nf s] consider
      (fail) e where
        "visit_in_order X oi [length (pre @ [x])..<length (pre @ [x]) + length rest] nb nw nf
             (wg\<lparr>m_workItems := (pre @ [x]) @ rest, env := s\<rparr>) = Some (Inl e)"
        "raises X oi e"
      | (ok) rest' s' nb' nw' nf' where
        "visit_in_order X oi [length (pre @ [x])..<length (pre @ [x]) + length rest] nb nw nf
             (wg\<lparr>m_workItems := (pre @ [x]) @ rest, env := s\<rparr>) =
             Some (Inr (nb', nw', nf', wg\<lparr>m_workItems := (pre @ [x]) @ rest', env := s'\<rparr>))"
        "length rest' = length rest" "\<forall>w \<in> set rest'. getState X w \<noteq> READY"
        "nb' = nb + cnt X BARRIER rest'" "nw' = nw + cnt X WAIT_EVENT rest'"
        "nf' + cnt X FINISHED rest = nf + cnt X FINISHED rest'"
        "sum_list (map dist rest') + cnt X READY rest \<le> sum_list (map dist rest)"
      by blast
    then show ?thesis
    proof cases
      case fail
      have "visit_in_order X oi [length pre..<length pre + length (x # rest)] nb nw nf
             (wg\<lparr>m_workItems := pre @ x # rest, env := s\<rparr>) = Some (Inl e)"
        unfolding up using fail(1) by (simp add: visit_finished [OF False])
      with fail(2) show ?thesis by blast
    next
      case ok
      note v = ok(1) and p = ok(2-7)
      have "visit_in_order X oi [length pre..<length pre + length (x # rest)] nb nw nf
               (wg\<lparr>m_workItems := pre @ x # rest, env := s\<rparr>) =
               Some (Inr (nb', nw', nf', wg\<lparr>m_workItems := pre @ x # rest', env := s'\<rparr>))"
        unfolding up using v by (simp add: visit_finished [OF False])
      moreover have "length (x # rest') = length (x # rest)" using p by simp
      moreover have "\<forall>w \<in> set (x # rest'). getState X w \<noteq> READY" using p False by simp
      moreover have "nb' = nb + cnt X BARRIER (x # rest')" using p fin by (simp add: cnt_Cons)
      moreover have "nw' = nw + cnt X WAIT_EVENT (x # rest')" using p fin by (simp add: cnt_Cons)
      moreover have "nf' + cnt X FINISHED (x # rest) = nf + cnt X FINISHED (x # rest')"
        using p fin by (simp add: cnt_Cons)
      moreover have "sum_list (map dist (x # rest')) + cnt X READY (x # rest) \<le>
          sum_list (map dist (x # rest))"
        using p fin by (simp add: cnt_Cons)
      ultimately show ?thesis by blast
    qed
  next
    case True
    from visit_stepped [OF assms(1) True, where oi = oi and pre = pre and nb = nb and nw = nw
        and nf = nf and wg = wg and rest = rest and s = s]
    consider
      (fail1) e where
        "visit X oi (length pre) nb nw nf (wg\<lparr>m_workItems := pre @ x # rest, env := s\<rparr>) =
           Some (Inl e)" "raises X oi e"
      | (ok1) st w' s1 nb1 nw1 nf1 where
        "visit X oi (length pre) nb nw nf (wg\<lparr>m_workItems := pre @ x # rest, env := s\<rparr>) =
             Some (Inr (nb1, nw1, nf1, wg\<lparr>m_workItems := pre @ w' # rest, env := s1\<rparr>))"
        "st \<noteq> READY" "getState X w' = st" "dist w' < dist x"
        "nb1 = (if st = BARRIER then nb + 1 else nb)"
        "nw1 = (if st = WAIT_EVENT then nw + 1 else nw)"
        "nf1 = (if st = FINISHED then nf + 1 else nf)"
      by blast
    then show ?thesis
    proof cases
      case fail1
      have "visit_in_order X oi [length pre..<length pre + length (x # rest)] nb nw nf
             (wg\<lparr>m_workItems := pre @ x # rest, env := s\<rparr>) = Some (Inl e)"
        unfolding up using fail1(1) by simp
      with fail1(2) show ?thesis by blast
    next
      case ok1
      note v1 = ok1(1) and q = ok1(2-7)
      from Cons.IH [OF r, of "pre @ [w']" nb1 nw1 nf1 s1] consider
        (fail) e where
          "visit_in_order X oi [length (pre @ [w'])..<length (pre @ [w']) + length rest]
               nb1 nw1 nf1 (wg\<lparr>m_workItems := (pre @ [w']) @ rest, env := s1\<rparr>) = Some (Inl e)"
          "raises X oi e"
        | (ok) rest' s' nb' nw' nf' where
          "visit_in_order X oi [length (pre @ [w'])..<length (pre @ [w']) + length rest]
               nb1 nw1 nf1 (wg\<lparr>m_workItems := (pre @ [w']) @ rest, env := s1\<rparr>) =
               Some (Inr (nb', nw', nf', wg\<lparr>m_workItems := (pre @ [w']) @ rest', env := s'\<rparr>))"
          "length rest' = length rest" "\<forall>w \<in> set rest'. getState X w \<noteq> READY"
          "nb' = nb1 + cnt X BARRIER rest'" "nw' = nw1 + cnt X WAIT_EVENT rest'"
          "nf' + cnt X FINISHED rest = nf1 + cnt X FINISHED rest'"
          "sum_list (map dist rest') + cnt X READY rest \<le> sum_list (map dist rest)"
        by blast
      then show ?thesis
      proof cases
        case fail
        have "visit_in_order X oi [length pre..<length pre + length (x # rest)] nb nw nf
               (wg\<lparr>m_workItems := pre @ x # rest, env := s\<rparr>) = Some (Inl e)"
          unfolding up using fail(1) v1 by simp
        with fail(2) show ?thesis by blast
      next
        case ok
        note v = ok(1) and p = ok(2-7)
        have "visit_in_order X oi [length pre..<length pre + length (x # rest)] nb nw nf
                 (wg\<lparr>m_workItems := pre @ x # rest, env := s\<rparr>) =
                 Some (Inr (nb', nw', nf', wg\<lparr>m_workItems := pre @ w' # rest', env := s'\<rparr>))"
          unfolding up using v v1 by simp
        moreover have "length (w' # rest') = length (x # rest)" using p by simp
        moreover have "\<forall>w \<in> set (w' # rest'). getState X w \<noteq> READY" using p q by simp
        moreover have "nb' = nb + cnt X BARRIER (w' # rest')" using p q by (simp add: cnt_Cons)
        moreover have "nw' = nw + cnt X WAIT_EVENT (w' # rest')" using p q by (simp add: cnt_Cons)
        moreover have "nf' + cnt X FINISHED (x # rest) = nf + cnt X FINISHED (w' # rest')"
          using p q True by (simp add: cnt_Cons)
        moreover have "sum_list (map dist (w' # rest')) + cnt X READY (x # rest) \<le>
            sum_list (map dist (x # rest))"
          using p q True by (simp add: cnt_Cons)
        ultimately show ?thesis by blast
      qed
    qed
  qed
qed

lemma cnt_all: "cnt X st ws = length ws \<Longrightarrow> \<forall>w \<in> set ws. getState X w = st"
proof (induction ws)
  case Nil
  then show ?case by simp
next
  case (Cons w ws)
  have le: "cnt X st ws \<le> length ws" by (simp add: cnt_def)
  show ?case
  proof (cases "getState X w = st")
    case True
    with Cons show ?thesis by (simp add: cnt_Cons)
  next
    case False
    with Cons.prems le show ?thesis by (simp add: cnt_Cons)
  qed
qed

lemma cnt_none: "\<forall>w \<in> set ws. getState X w \<noteq> st \<Longrightarrow> cnt X st ws = 0"
  by (simp add: cnt_def)

lemma cnt_split:
  "cnt X READY ws + cnt X BARRIER ws + cnt X WAIT_EVENT ws + cnt X FINISHED ws = length ws"
proof (induction ws)
  case Nil
  then show ?case by (simp add: cnt_def)
next
  case (Cons w ws)
  then show ?case by (cases "getState X w") (simp_all add: cnt_Cons)
qed

lemma sum_dist_clear:
  assumes "approaching X dist"
  shows "sum_list (map dist (map (clearBarrier X) ws)) \<le> sum_list (map dist ws)"
proof (induction ws)
  case Nil
  then show ?case by simp
next
  case (Cons w ws)
  from assms have "dist (clearBarrier X w) \<le> dist w" unfolding approaching_def by blast
  with Cons show ?case by simp
qed

lemma released_ready:
  assumes "approaching X dist"
    and "\<forall>w \<in> set ws. getState X w = BARRIER \<or> getState X w = WAIT_EVENT"
  shows "\<forall>w \<in> set (map (clearBarrier X) ws). getState X w = READY"
proof
  fix w assume "w \<in> set (map (clearBarrier X) ws)"
  then obtain v where v: "v \<in> set ws" "w = clearBarrier X v" by auto
  from assms(1) have "getState X (clearBarrier X v) =
      (if getState X v = BARRIER \<or> getState X v = WAIT_EVENT then READY else getState X v)"
    unfolding approaching_def by blast
  with assms(2) v show "getState X w = READY" by simp
qed

lemma run_loop_exit:
  "\<not> nf < m_totalWorkItems wg \<Longrightarrow> run_loop X oi nf wg = Some (Inr (Next wg))"
  by (subst run_loop.simps) simp

lemma run_loop_error:
  assumes "nf < m_totalWorkItems wg" and "for_items X oi 0 0 0 nf wg = Some (Inl e)"
  shows "run_loop X oi nf wg = Some (Inl e)"
  using assms by (subst run_loop.simps) simp

lemma run_loop_total:
  assumes "approaching X dist"
    and "\<forall>w \<in> set (m_workItems wg). getState X w = READY \<or> getState X w = FINISHED"
    and "nf = cnt X FINISHED (m_workItems wg)"
  shows "(\<exists>e. run_loop X oi nf wg = Some (Inl e) \<and> raises X oi e) \<or>
         (\<exists>f. run_loop X oi nf wg = Some (Inr f) \<and>
           (\<forall>w. f = Next w \<longrightarrow> (\<forall>x \<in> set (m_workItems w). getState X x = FINISHED)))"
  using assms(2,3)
proof (induction "sum_list (map dist (m_workItems wg))" arbitrary: nf wg rule: less_induct)
  case less
  let ?ws = "m_workItems wg"
  show ?case
  proof (cases "nf < m_totalWorkItems wg")
    case False
    then have "cnt X FINISHED ?ws = length ?ws"
      using less.prems(2) by (simp add: m_totalWorkItems_def cnt_def le_antisym)
    from cnt_all [OF this] run_loop_exit [OF False, of X oi] show ?thesis by simp
  next
    case True
    have wg: "wg\<lparr>m_workItems := [] @ ?ws, env := env wg\<rparr> = wg" by simp
    from pass_total [OF assms(1) less.prems(1), where oi = oi and pre = "[]" and nb = 0
        and nw = 0 and nf = nf and wg = wg and s = "env wg"]
    consider
      (fail) e where "visit_in_order X oi [0..<length ?ws] 0 0 nf wg = Some (Inl e)"
        "raises X oi e"
      | (ok) rest' s' nb nw nf' where
        "visit_in_order X oi [0..<length ?ws] 0 0 nf wg =
            Some (Inr (nb, nw, nf', wg\<lparr>m_workItems := rest', env := s'\<rparr>))"
        "length rest' = length ?ws" "\<forall>w \<in> set rest'. getState X w \<noteq> READY"
        "nb = cnt X BARRIER rest'" "nw = cnt X WAIT_EVENT rest'"
        "nf' + cnt X FINISHED ?ws = nf + cnt X FINISHED rest'"
        "sum_list (map dist rest') + cnt X READY ?ws \<le> sum_list (map dist ?ws)"
      unfolding wg by auto
    then show ?thesis
    proof cases
      case fail
      have "for_items X oi 0 0 0 nf wg = Some (Inl e)"
        unfolding for_items_eq using fail(1) by (simp add: m_totalWorkItems_def)
      from run_loop_error [OF True this] fail(2) show ?thesis by blast
    next
      case ok
      note v = ok(1) and p = ok(2-7)
      let ?wg1 = "wg\<lparr>m_workItems := rest', env := s'\<rparr>"
      have t1: "m_totalWorkItems ?wg1 = m_totalWorkItems wg"
        using p(1) by (simp add: m_totalWorkItems_def)
      have f: "for_items X oi 0 0 0 nf wg = Some (Inr (nb, nw, nf', ?wg1))"
        unfolding for_items_eq using v by (simp add: m_totalWorkItems_def)
      note rl = run_loop_pass [OF True f]
      from p(5) less.prems(2) have nf': "nf' = cnt X FINISHED rest'" by simp
      from cnt_none [OF p(2)] cnt_split [of X rest'] p(1,3,4) nf'
      have tot: "nb + nw + nf' = m_totalWorkItems wg" by (simp add: m_totalWorkItems_def)
      from less.prems(1) have "\<forall>w \<in> set ?ws. getState X w \<noteq> BARRIER"
        "\<forall>w \<in> set ?ws. getState X w \<noteq> WAIT_EVENT" by auto
      then have "cnt X BARRIER ?ws = 0" "cnt X WAIT_EVENT ?ws = 0"
        by (simp_all only: cnt_none)
      with cnt_split [of X ?ws] less.prems(2) True have "0 < cnt X READY ?ws"
        by (simp add: m_totalWorkItems_def)
      with p(6) have dec: "sum_list (map dist rest') < sum_list (map dist ?ws)" by simp
      have rec: "(\<exists>e. run_loop X oi 0 w2 = Some (Inl e) \<and> raises X oi e) \<or>
           (\<exists>f. run_loop X oi 0 w2 = Some (Inr f) \<and>
             (\<forall>w. f = Next w \<longrightarrow> (\<forall>x \<in> set (m_workItems w). getState X x = FINISHED)))"
        if "m_workItems w2 = map (clearBarrier X) rest'"
          and "\<forall>w \<in> set rest'. getState X w = BARRIER \<or> getState X w = WAIT_EVENT" for w2
      proof -
        from released_ready [OF assms(1) that(2)]
        have r: "\<forall>w \<in> set (m_workItems w2). getState X w = READY" by (simp add: that(1))
        then have a: "\<forall>w \<in> set (m_workItems w2). getState X w = READY \<or> getState X w = FINISHED"
          by simp
        from r have "\<forall>w \<in> set (m_workItems w2). getState X w \<noteq> FINISHED" by simp
        from cnt_none [OF this] have b: "0 = cnt X FINISHED (m_workItems w2)" by simp
        from sum_dist_clear [OF assms(1), of rest'] dec
        have "sum_list (map dist (m_workItems w2)) < sum_list (map dist ?ws)"
          by (simp add: that(1))
        from less.hyps [OF this a b] show ?thesis .
      qed
      from tot have le: "nb \<le> m_totalWorkItems wg" "nw \<le> m_totalWorkItems wg" by simp_all
      consider (all) "nb = m_totalWorkItems wg"
        | (part) "0 < nb" "nb < m_totalWorkItems wg"
        | (none) "nb = 0"
        by (cases "nb = 0"; cases "nb = m_totalWorkItems wg") (use le in auto)
      then show ?thesis
      proof cases
        case all
        with tot True have z: "nw = 0" "nf' = 0" by simp_all
        let ?wg2 = "if oi then say ''All work-items reached barrier.'' (clear_all X ?wg1)
                    else clear_all X ?wg1"
        have b: "barrier_check X oi nb ?wg1 = Next ?wg2"
          using all t1 by (simp add: barrier_check_def)
        have w: "wait_check X oi 0 ?wg2 = Next ?wg2"
          using True t1 by (auto simp: wait_check_def)
        have e: "run_loop X oi nf wg = run_loop X oi 0 ?wg2"
          unfolding rl b z by (simp add: w)
        from all p(1,3) have "cnt X BARRIER rest' = length rest'"
          by (simp add: m_totalWorkItems_def)
        from cnt_all [OF this]
        have "\<forall>w \<in> set rest'. getState X w = BARRIER \<or> getState X w = WAIT_EVENT" by simp
        moreover have "m_workItems ?wg2 = map (clearBarrier X) rest'"
          by (simp add: say_def clear_all_eq)
        ultimately show ?thesis unfolding e by (intro rec)
      next
        case part
        then have "barrier_check X oi nb ?wg1 = Return (say ''Barrier divergence detected.'' ?wg1)"
          using t1 by (simp add: barrier_check_def)
        then show ?thesis unfolding rl by simp
      next
        case none
        then have b: "barrier_check X oi nb ?wg1 = Next ?wg1"
          using True t1 by (auto simp: barrier_check_def)
        consider (wall) "nw = m_totalWorkItems wg"
          | (wpart) "0 < nw" "nw < m_totalWorkItems wg"
          | (wnone) "nw = 0"
          by (cases "nw = 0"; cases "nw = m_totalWorkItems wg") (use le in auto)
        then show ?thesis
        proof cases
          case wall
          with tot none have z: "nf' = 0" by simp
          let ?wg3 = "if oi then say ''All work-items reached wait for events.''
                                   (clear_all X (?wg1\<lparr>env := fulfil X (env ?wg1)\<rparr>))
                      else clear_all X (?wg1\<lparr>env := fulfil X (env ?wg1)\<rparr>)"
          have w: "wait_check X oi nw ?wg1 = Next ?wg3"
            using wall t1 by (simp add: wait_check_def)
          have e: "run_loop X oi nf wg = run_loop X oi 0 ?wg3"
            unfolding rl b z by (simp add: w)
          from wall p(1,4) have "cnt X WAIT_EVENT rest' = length rest'"
            by (simp add: m_totalWorkItems_def)
          from cnt_all [OF this]
          have "\<forall>w \<in> set rest'. getState X w = BARRIER \<or> getState X w = WAIT_EVENT" by simp
          moreover have "m_workItems ?wg3 = map (clearBarrier X) rest'"
            by (simp add: say_def clear_all_eq)
          ultimately show ?thesis unfolding e by (intro rec)
        next
          case wpart
          then have "wait_check X oi nw ?wg1 =
              Return (say ''Wait for events divergence detected.'' ?wg1)"
            using t1 by (simp add: wait_check_def)
          then show ?thesis unfolding rl b by simp
        next
          case wnone
          then have w: "wait_check X oi nw ?wg1 = Next ?wg1"
            using True t1 by (auto simp: wait_check_def)
          from tot none wnone have full: "nf' = m_totalWorkItems wg" by simp
          then have "\<not> nf' < m_totalWorkItems ?wg1" using t1 by simp
          from run_loop_exit [OF this, of X oi]
          have e: "run_loop X oi nf wg = Some (Inr (Next ?wg1))"
            unfolding rl b by (simp add: w)
          from full nf' p(1) have "cnt X FINISHED rest' = length rest'"
            by (simp add: m_totalWorkItems_def)
          from cnt_all [OF this] show ?thesis unfolding e by simp
        qed
      qed
    qed
  qed
qed

lemma plain_step_cases:
  assumes "state w = READY"
  shows "\<exists>st w' s'. plain_step oi w s = Inr (st, w', s') \<and> state w' = st \<and>
           remaining w' < remaining w"
proof (cases "program w")
  case Nil
  with assms show ?thesis by (simp add: plain_step_def remaining_def)
next
  case (Cons a p)
  with assms show ?thesis by (cases "a = Barrier") (simp_all add: plain_step_def remaining_def)
qed

lemma clearBarrier_item:
  "remaining (item_clearBarrier w) \<le> remaining w \<and>
   state (item_clearBarrier w) =
     (if state w = BARRIER \<or> state w = WAIT_EVENT then READY else state w)"
  by (simp add: item_clearBarrier_def remaining_def)

lemma approaching_plain: "approaching plain remaining"
  unfolding approaching_def
proof (intro conjI allI impI)
  fix oi w s assume "getState plain w = READY"
  then have "state w = READY" by (simp add: plain_def scripted_def)
  from plain_step_cases [OF this, of oi s]
  show "(\<exists>e. step plain oi w s = Inl e) \<or>
        (\<exists>st w' s'. step plain oi w s = Inr (st, w', s') \<and> getState plain w' = st \<and>
           remaining w' < remaining w)"
    by (simp add: plain_def scripted_def)
next
  fix w
  show "remaining (clearBarrier plain w) \<le> remaining w"
    using clearBarrier_item [of w] by (simp add: plain_def scripted_def)
  show "getState plain (clearBarrier plain w) =
      (if getState plain w = BARRIER \<or> getState plain w = WAIT_EVENT then READY
       else getState plain w)"
    using clearBarrier_item [of w] by (simp add: plain_def scripted_def)
qed

lemma plain_never_fails: "step plain oi w s \<noteq> Inl e"
proof (cases "program w")
  case Nil
  then show ?thesis by (simp add: plain_def plain_step_def)
next
  case (Cons a p)
  then show ?thesis by (cases "a = Barrier") (simp_all add: plain_def plain_step_def)
qed

lemma progressing_plain: "progressing plain remaining"
  unfolding progressing_def
proof (intro allI impI)
  fix oi w s assume "getState plain w = READY"
  then have "state w = READY" by (simp add: plain_def scripted_def)
  from plain_step_cases [OF this, of oi s]
  show "\<exists>st w' s'. step plain oi w s = Inr (st, w', s') \<and> getState plain w' = st \<and>
           (st \<noteq> READY \<or> remaining w' < remaining w)"
    by (auto simp: plain_def scripted_def)
qed

lemma item_step_cases:
  assumes "state w = READY"
  shows "(\<exists>e. item_step oi w s = Inl e) \<or>
         (\<exists>st w' s'. item_step oi w s = Inr (st, w', s') \<and> state w' = st \<and>
            remaining w' < remaining w)"
proof -
  have ok: ?thesis
    if "item_step oi w s = Inr (st, w', s')" "state w' = st" "remaining w' < remaining w"
    for st w' s'
    using that by blast
  show ?thesis
  proof (cases "program w")
    case Nil
    show ?thesis
      by (rule ok [of FINISHED "w\<lparr>state := FINISHED\<rparr>" s])
        (use Nil assms in \<open>simp_all add: item_step_def remaining_def\<close>)
  next
    case (Cons a p)
    show ?thesis
    proof (cases a)
      case Compute
      show ?thesis
        by (rule ok [of READY "w\<lparr>program := p\<rparr>" s])
          (use Cons Compute assms in \<open>simp_all add: item_step_def remaining_def\<close>)
    next
      case Barrier
      show ?thesis
        by (rule ok [of BARRIER "w\<lparr>state := BARRIER, program := p\<rparr>" s])
          (use Cons Barrier assms in \<open>simp_all add: item_step_def remaining_def\<close>)
    next
      case (Copy c)
      obtain h s1 where ac: "async_copy c 0 s = (h, s1)" by (cases "async_copy c 0 s") auto
      show ?thesis
        by (rule ok [of READY "w\<lparr>program := p, last_event := h\<rparr>" s1])
          (use Cons Copy assms ac in \<open>simp_all add: item_step_def remaining_def\<close>)
    next
      case Wait
      show ?thesis
      proof (cases "wait_event (last_event w) s")
        case (Inl e)
        with Cons Wait show ?thesis by (simp add: item_step_def)
      next
        case (Inr s1)
        show ?thesis
          by (rule ok [of WAIT_EVENT "w\<lparr>state := WAIT_EVENT, program := p\<rparr>" s1])
            (use Cons Wait assms Inr in \<open>simp_all add: item_step_def remaining_def\<close>)
      qed
    qed
  qed
qed

lemma approaching_scripted: "approaching scripted remaining"
  unfolding approaching_def
proof (intro conjI allI impI)
  fix oi w s assume "getState scripted w = READY"
  then have "state w = READY" by (simp add: scripted_def)
  from item_step_cases [OF this, of oi s]
  show "(\<exists>e. step scripted oi w s = Inl e) \<or>
        (\<exists>st w' s'. step scripted oi w s = Inr (st, w', s') \<and> getState scripted w' = st \<and>
           remaining w' < remaining w)"
    by (simp add: scripted_def)
next
  fix w
  show "remaining (clearBarrier scripted w) \<le> remaining w"
    using clearBarrier_item [of w] by (simp add: scripted_def)
  show "getState scripted (clearBarrier scripted w) =
      (if getState scripted w = BARRIER \<or> getState scripted w = WAIT_EVENT then READY
       else getState scripted w)"
    using clearBarrier_item [of w] by (simp add: scripted_def)
qed

lemma progressing_forever: "progressing forever dist"
  by (simp add: progressing_def forever_def forever_step_def scripted_def)

lemma run_loop_forever:
  assumes "run_loop X oi nf wg = Some y"
  shows "\<not> (X = forever \<and> \<not> oi \<and> nf = 0 \<and> wg = g_loop)"
proof (induction X oi nf wg y rule: run_loop.raw_induct)
  case (1 run_loop X oi nf wg y)
  show ?case
  proof
    assume a: "X = forever \<and> \<not> oi \<and> nf = 0 \<and> wg = g_loop"
    have f: "for_items forever False 0 0 0 0 g_loop =
        Some (Inr (1, 0, 0, group_of [item_at BARRIER [] 0]))"
      by code_simp
    have b: "barrier_check forever False 1 (group_of [item_at BARRIER [] 0]) = Next g_loop"
      by code_simp
    have w: "wait_check forever False 0 g_loop = Next g_loop" by code_simp
    have t: "0 < m_totalWorkItems g_loop" by code_simp
    from "1.hyps" a f b w t have "run_loop forever False 0 g_loop = Some y" by simp
    from "1.IH" [OF this] show False by simp
  qed
qed fact

lemma run_forever: "run forever False g_loop = None"
proof (cases "run_loop forever False 0 g_loop")
  case None
  then show ?thesis by (simp add: run_def)
next
  case (Some y)
  from run_loop_forever [OF this] show ?thesis by simp
qed

lemma run_empty:
  assumes "m_totalWorkItems wg = 0"
  shows "run X oi wg =
     Some (Inr (if oi then wg\<lparr>env := print_line ''All work-items completed kernel.'' (env wg)\<rparr>
                else wg))"
proof -
  from assms have "\<not> 0 < m_totalWorkItems wg" by simp
  from run_loop_exit [OF this, of X oi] show ?thesis by (simp add: run_def say_def)
qed

lemma run_outcomes:
  assumes "approaching X dist" and "\<forall>w \<in> set (m_workItems wg). getState X w = READY"
  shows "(\<exists>w. run_loop X oi 0 wg = Some (Inr (Next w)) \<and>
           (\<forall>x \<in> set (m_workItems w). getState X x = FINISHED) \<and>
           run X oi wg =
             Some (Inr (if oi
                        then w\<lparr>env := print_line ''All work-items completed kernel.'' (env w)\<rparr>
                        else w))) \<or>
      (\<exists>w0. run X oi wg =
               Some (Inr (w0\<lparr>env := print_line ''Barrier divergence detected.'' (env w0)\<rparr>)) \<or>
            run X oi wg =
               Some (Inr (w0\<lparr>env := print_line ''Wait for events divergence detected.''
                                         (env w0)\<rparr>))) \<or>
      (\<exists>e w s. run X oi wg = Some (Inl e) \<and> getState X w = READY \<and> step X oi w s = Inl e)"
proof -
  from assms(2)
  have r: "\<forall>w \<in> set (m_workItems wg). getState X w = READY \<or> getState X w = FINISHED"
    by simp
  from assms(2) have "\<forall>w \<in> set (m_workItems wg). getState X w \<noteq> FINISHED" by simp
  from cnt_none [OF this] have z: "0 = cnt X FINISHED (m_workItems wg)" by simp
  from run_loop_total [OF assms(1) r z, of oi] consider
    (fail) e where "run_loop X oi 0 wg = Some (Inl e)" "raises X oi e"
    | (ok) f where "run_loop X oi 0 wg = Some (Inr f)"
        "\<forall>w. f = Next w \<longrightarrow> (\<forall>x \<in> set (m_workItems w). getState X x = FINISHED)"
    by blast
  then show ?thesis
  proof cases
    case fail
    from fail(1) have "run X oi wg = Some (Inl e)" by (simp add: run_def)
    moreover from fail(2) obtain w s where "getState X w = READY" "step X oi w s = Inl e"
      unfolding raises_def by blast
    ultimately show ?thesis by blast
  next
    case ok
    note l = ok(1) and n = ok(2)
    show ?thesis
    proof (cases f)
      case (Next w)
      with n have "\<forall>x \<in> set (m_workItems w). getState X x = FINISHED" by simp
      moreover from l Next have "run_loop X oi 0 wg = Some (Inr (Next w))" by simp
      moreover from this have "run X oi wg =
               Some (Inr (if oi
                          then w\<lparr>env := print_line ''All work-items completed kernel.'' (env w)\<rparr>
                          else w))"
        by (simp add: run_def say_def)
      ultimately show ?thesis by blast
    next
      case (Return w)
      with l have lr: "run_loop X oi 0 wg = Some (Inr (Return w))" by simp
      then have rr: "run X oi wg = Some (Inr w)" by (simp add: run_def)
      from run_loop_frame [OF lr] obtain w0 where
        "w = say ''Barrier divergence detected.'' w0 \<or>
         w = say ''Wait for events divergence detected.'' w0"
        by auto
      with rr have "run X oi wg =
                 Some (Inr (w0\<lparr>env := print_line ''Barrier divergence detected.'' (env w0)\<rparr>)) \<or>
              run X oi wg =
                 Some (Inr (w0\<lparr>env := print_line ''Wait for events divergence detected.''
                                           (env w0)\<rparr>))"
        by (auto simp: say_def)
      then show ?thesis by blast
    qed
  qed
qed

text \<open>
  C9 (termination), as amended.  A work-group without work-items completes \<open>run\<close> at
  once, printing at most the closing line.  For a kernel that is \<open>approaching\<close> and a
  group whose work-items are all \<open>READY\<close>, \<open>run\<close> returns, in one of three ways:
  the loop ends with every work-item \<open>FINISHED\<close> and nothing but the closing line is
  printed after it; or \<open>run\<close> returns through a divergence, the line ``Barrier
  divergence detected.'' or ``Wait for events divergence detected.'' being the last
  thing printed; or an assertion fails, with the error that a step of a \<open>READY\<close>
  work-item has reported.  For a kernel none of whose steps fails, only the first two
  remain.
\<close>

theorem run_terminates:
  "(m_totalWorkItems wg = 0 \<longrightarrow>
      run X oi wg =
        Some (Inr (if oi
                   then wg\<lparr>env := print_line ''All work-items completed kernel.'' (env wg)\<rparr>
                   else wg))) \<and>
   (approaching X dist \<and> (\<forall>w \<in> set (m_workItems wg). getState X w = READY) \<longrightarrow>
      (\<exists>w. run_loop X oi 0 wg = Some (Inr (Next w)) \<and>
           (\<forall>x \<in> set (m_workItems w). getState X x = FINISHED) \<and>
           run X oi wg =
             Some (Inr (if oi
                        then w\<lparr>env := print_line ''All work-items completed kernel.'' (env w)\<rparr>
                        else w))) \<or>
      (\<exists>w0. run X oi wg =
               Some (Inr (w0\<lparr>env := print_line ''Barrier divergence detected.'' (env w0)\<rparr>)) \<or>
            run X oi wg =
               Some (Inr (w0\<lparr>env := print_line ''Wait for events divergence detected.''
                                         (env w0)\<rparr>))) \<or>
      (\<exists>e w s. run X oi wg = Some (Inl e) \<and> getState X w = READY \<and> step X oi w s = Inl e)) \<and>
   (approaching X dist \<and> (\<forall>w s e. step X oi w s \<noteq> Inl e) \<and>
    (\<forall>w \<in> set (m_workItems wg). getState X w = READY) \<longrightarrow>
      (\<exists>w. run_loop X oi 0 wg = Some (Inr (Next w)) \<and>
           (\<forall>x \<in> set (m_workItems w). getState X x = FINISHED) \<and>
           run X oi wg =
             Some (Inr (if oi
                        then w\<lparr>env := print_line ''All work-items completed kernel.'' (env w)\<rparr>
                        else w))) \<or>
      (\<exists>w0. run X oi wg =
               Some (Inr (w0\<lparr>env := print_line ''Barrier divergence detected.'' (env w0)\<rparr>)) \<or>
            run X oi wg =
               Some (Inr (w0\<lparr>env := print_line ''Wait for events divergence detected.''
                                         (env w0)\<rparr>))))"
proof (intro conjI impI)
  assume "m_totalWorkItems wg = 0"
  then show "run X oi wg =
        Some (Inr (if oi
                   then wg\<lparr>env := print_line ''All work-items completed kernel.'' (env wg)\<rparr>
                   else wg))"
    by (rule run_empty)
next
  assume a: "approaching X dist \<and> (\<forall>w \<in> set (m_workItems wg). getState X w = READY)"
  then have ap: "approaching X dist"
    and r: "\<forall>w \<in> set (m_workItems wg). getState X w = READY"
    by simp_all
  show "(\<exists>w. run_loop X oi 0 wg = Some (Inr (Next w)) \<and>
           (\<forall>x \<in> set (m_workItems w). getState X x = FINISHED) \<and>
           run X oi wg =
             Some (Inr (if oi
                        then w\<lparr>env := print_line ''All work-items completed kernel.'' (env w)\<rparr>
                        else w))) \<or>
      (\<exists>w0. run X oi wg =
               Some (Inr (w0\<lparr>env := print_line ''Barrier divergence detected.'' (env w0)\<rparr>)) \<or>
            run X oi wg =
               Some (Inr (w0\<lparr>env := print_line ''Wait for events divergence detected.''
                                         (env w0)\<rparr>))) \<or>
      (\<exists>e w s. run X oi wg = Some (Inl e) \<and> getState X w = READY \<and> step X oi w s = Inl e)"
    by (rule run_outcomes [OF ap r])
next
  assume a: "approaching X dist \<and> (\<forall>w s e. step X oi w s \<noteq> Inl e) \<and>
    (\<forall>w \<in> set (m_workItems wg). getState X w = READY)"
  then have ap: "approaching X dist"
    and nf: "\<forall>w s e. step X oi w s \<noteq> Inl e"
    and r: "\<forall>w \<in> set (m_workItems wg). getState X w = READY"
    by simp_all
  from nf have "\<not> (\<exists>e w s. run X oi wg = Some (Inl e) \<and> getState X w = READY \<and>
      step X oi w s = Inl e)"
    by blast
  with run_outcomes [OF ap r, of oi]
  show "(\<exists>w. run_loop X oi 0 wg = Some (Inr (Next w)) \<and>
           (\<forall>x \<in> set (m_workItems w). getState X x = FINISHED) \<and>
           run X oi wg =
             Some (Inr (if oi
                        then w\<lparr>env := print_line ''All work-items completed kernel.'' (env w)\<rparr>
                        else w))) \<or>
      (\<exists>w0. run X oi wg =
               Some (Inr (w0\<lparr>env := print_line ''Barrier divergence detected.'' (env w0)\<rparr>)) \<or>
            run X oi wg =
               Some (Inr (w0\<lparr>env := print_line ''Wait for events divergence detected.''
                                         (env w0)\<rparr>)))"
    by blast
qed

text \<open>
  The claim C9 as it was stated fails in both of its parts.  The kernel \<open>plain\<close> makes
  progress with every step, both work-items of the group \<open>g_div2\<close> start \<open>READY\<close>, and
  the run ends with the barrier divergence line and one work-item of two finished.  The
  kernel \<open>forever\<close> changes the state with every step, the work-item of the group
  \<open>g_loop\<close> starts \<open>READY\<close>, and the run never returns: every pass leaves the
  work-item at a barrier, from which the loop releases it.
\<close>

theorem run_terminates_counterexample:
  "progressing plain remaining \<and>
   m_totalWorkItems g_div2 = 2 \<and>
   cnt plain READY (m_workItems g_div2) = 2 \<and>
   printed (run plain False g_div2) = Some [Str ''Barrier divergence detected.'', Endl] \<and>
   finished_items plain (run plain False g_div2) = Some 1 \<and>
   progressing forever remaining \<and>
   m_totalWorkItems g_loop = 1 \<and>
   cnt forever READY (m_workItems g_loop) = 1 \<and>
   run forever False g_loop = None"
proof -
  have "m_totalWorkItems g_div2 = 2 \<and>
   cnt plain READY (m_workItems g_div2) = 2 \<and>
   printed (run plain False g_div2) = Some [Str ''Barrier divergence detected.'', Endl] \<and>
   finished_items plain (run plain False g_div2) = Some 1"
    by code_simp
  moreover have "m_totalWorkItems g_loop = 1 \<and> cnt forever READY (m_workItems g_loop) = 1"
    by code_simp
  ultimately show ?thesis
    using progressing_plain progressing_forever [of remaining] run_forever by simp
qed

theorem run_terminates_witness:
  "run scripted True g_empty =
     Some (Inr (g_empty\<lparr>env := print_line ''All work-items completed kernel.'' (env g_empty)\<rparr>)) \<and>
   approaching scripted remaining \<and>
   (\<exists>w. run_loop scripted False 0 g_wait = Some (Inr (Next w)) \<and>
        (\<forall>x \<in> set (m_workItems w). getState scripted x = FINISHED) \<and>
        run scripted False g_wait = Some (Inr w)) \<and>
   finished_items scripted (run scripted False g_wait) = Some 2 \<and>
   (\<exists>w s. run scripted False g_bad_wait = Some (Inl AssertionFailed) \<and>
          getState scripted w = READY \<and> step scripted False w s = Inl AssertionFailed) \<and>
   (\<exists>w. run_loop plain False 0 g_barrier = Some (Inr (Next w)) \<and>
        (\<forall>x \<in> set (m_workItems w). getState plain x = FINISHED) \<and>
        run plain False g_barrier = Some (Inr w))"
proof -
  have e: "m_totalWorkItems g_empty = 0" by code_simp
  from run_terminates [of g_empty scripted True, THEN conjunct1, THEN mp, OF e]
  have 1: "run scripted True g_empty =
     Some (Inr (g_empty\<lparr>env := print_line ''All work-items completed kernel.'' (env g_empty)\<rparr>))"
    by simp
  have rw: "\<forall>w \<in> set (m_workItems g_wait). getState scripted w = READY"
    by (simp add: g_wait_def group_of_def item_at_def scripted_def)
  have pw: "printed (run scripted False g_wait) = Some []" by code_simp
  from run_terminates [of g_wait scripted False remaining, THEN conjunct2, THEN conjunct1,
      THEN mp, OF conjI [OF approaching_scripted rw]] pw
  have 2: "\<exists>w. run_loop scripted False 0 g_wait = Some (Inr (Next w)) \<and>
        (\<forall>x \<in> set (m_workItems w). getState scripted x = FINISHED) \<and>
        run scripted False g_wait = Some (Inr w)"
    by (auto simp: printed_def print_line_def)
  have fw: "finished_items scripted (run scripted False g_wait) = Some 2" by code_simp
  have rb: "\<forall>w \<in> set (m_workItems g_bad_wait). getState scripted w = READY"
    by (simp add: g_bad_wait_def group_of_def item_at_def scripted_def)
  have pb: "run scripted False g_bad_wait = Some (Inl AssertionFailed)" by code_simp
  from run_terminates [of g_bad_wait scripted False remaining, THEN conjunct2, THEN conjunct1,
      THEN mp, OF conjI [OF approaching_scripted rb]] pb
  have 3: "\<exists>w s. run scripted False g_bad_wait = Some (Inl AssertionFailed) \<and>
          getState scripted w = READY \<and> step scripted False w s = Inl AssertionFailed"
    by auto
  have r: "\<forall>w \<in> set (m_workItems g_barrier). getState plain w = READY"
    by (simp add: g_barrier_def group_of_def item_at_def plain_def scripted_def)
  have nf: "\<forall>w s e. step plain False w s \<noteq> Inl e" by (simp add: plain_never_fails)
  have pp: "printed (run plain False g_barrier) = Some []" by code_simp
  from run_terminates [of g_barrier plain False remaining, THEN conjunct2, THEN conjunct2,
      THEN mp, OF conjI [OF approaching_plain conjI [OF nf r]]] pp
  have 4: "\<exists>w. run_loop plain False 0 g_barrier = Some (Inr (Next w)) \<and>
        (\<forall>x \<in> set (m_workItems w). getState plain x = FINISHED) \<and>
        run plain False g_barrier = Some (Inr w)"
    by (auto simp: printed_def print_line_def)
  from 1 approaching_scripted 2 fw 3 4 show ?thesis by blast
qed

end
